theory Spec2Isabelle
  imports Main "HOL-Library.Word" "HOL-Library.Multiset"
begin

unbundle bit_operations_syntax

section \<open>Machine types of \<^verbatim>\<open>net/virtio.cc\<close>\<close>

type_synonym u8 = "8 word"
type_synonym u16 = "16 word"
type_synonym u32 = "32 word"
type_synonym u64 = "64 word"

text \<open>\<^verbatim>\<open>using phys = uint64_t;\<close>\<close>

type_synonym phys = u64

text \<open>
  Undefined behaviour and aborts of the C++ are values of the model: a failed
  \<^verbatim>\<open>assert\<close>, an array access outside the ring, and a \<^verbatim>\<open>while (true)\<close> that never
  reaches its \<^verbatim>\<open>break\<close>.
\<close>

datatype error = Assert_failed | Out_of_bounds | Diverges

text \<open>\<^verbatim>\<open>vring::config\<close>. The three pointers are addresses (see \<open>common_config\<close>).\<close>

record config =
  c_descs :: nat
  c_avail :: nat
  c_used :: nat
  c_size :: u32
  c_event_index :: bool
  c_indirect :: bool
  c_mergable_buffers :: bool

text \<open>\<^verbatim>\<open>vring::buffer\<close>\<close>

record buffer =
  b_addr :: phys
  b_len :: u32
  b_writeable :: bool

text \<open>\<^verbatim>\<open>vring::desc\<close>, with the three one-bit flags as booleans.\<close>

record desc =
  d_paddr :: phys
  d_len :: u32
  d_has_next :: bool
  d_writeable :: bool
  d_indirect :: bool
  d_next :: u16

text \<open>\<^verbatim>\<open>vring::used_elem\<close>\<close>

record used_elem =
  ue_id :: u32
  ue_len :: u32

text \<open>
  What the driver does that the host or the reactor can observe, in program order:
  calls of \<^verbatim>\<open>_notifier->notify()\<close> and \<^verbatim>\<open>_notifier->wait()\<close>, the \<^verbatim>\<open>seq_cst\<close> fences, the
  stores to the shared available ring, and the loads of \<^verbatim>\<open>used._idx\<close>.
\<close>

datatype event =
    Notify
  | Wait
  | Fence
  | Store_avail_flags u16
  | Store_used_event u16
  | Store_avail_idx u16
  | Store_avail_ring nat u16
  | Load_used_idx u16

text \<open>
  The state of a \<^verbatim>\<open>vring\<close>: its private members, the three shared regions as typed
  views, and the log of observable events. \<open>'c\<close> is what a \<^verbatim>\<open>promise<size_t>\<close> of the
  completion table runs when it is fulfilled; \<open>None\<close> is a promise nobody waits on, and
  \<open>ready\<close> collects the continuations that \<^verbatim>\<open>set_value\<close> has made runnable, each with
  the length it was given.
\<close>

record 'c vring =
  vconfig :: config
  completions :: "'c option list"
  descs :: "desc list"
  avail_flags :: u16
  avail_idx :: u16
  avail_ring :: "u16 list"
  used_event :: u16
  used_flags :: u16
  used_idx :: u16
  used_elements :: "used_elem list"
  avail_event :: u16
  avail_head :: u16
  avail_added_since_kick :: u16
  used_tail :: u16
  available_descriptors :: nat
  free_head :: int
  free_last :: int
  batch :: "u16 list"
  poll_mode :: bool
  ready :: "('c \<times> u32) list"
  trace :: "event list"

definition emit :: "event \<Rightarrow> 'c vring \<Rightarrow> 'c vring" where
  "emit e s = s\<lparr>trace := trace s @ [e]\<rparr>"

section \<open>The host\<close>

text \<open>
  The host runs concurrently and owns the used ring, \<^verbatim>\<open>used._flags\<close> and the
  \<^verbatim>\<open>avail_event\<close> word. Every access of the driver to the shared regions is a single
  atomic load or store, so an execution is an interleaving of the driver's accesses with
  the host's writes. The driver functions below take, for each of their loads of host
  memory, the list of writes the host makes before that load since the previous one.
\<close>

datatype host_action =
    Push used_elem
  | Set_avail_event u16
  | Set_used_flags u16

text \<open>\<^verbatim>\<open>int size() { return _config.size; }\<close>, \<^verbatim>\<open>mask()\<close> and \<^verbatim>\<open>masked()\<close> (in \<^verbatim>\<open>size_t\<close>).\<close>

definition vsize :: "'c vring \<Rightarrow> int" where
  "vsize s = sint (c_size (vconfig s))"

definition mask_ring :: "'c vring \<Rightarrow> u64" where
  "mask_ring s = word_of_int (vsize s - 1)"

definition masked :: "'c vring \<Rightarrow> u64 \<Rightarrow> u64" where
  "masked s idx = idx AND mask_ring s"

text \<open>
  The host returns a chain: it writes the used element at its own index, masked as the
  driver masks it, and advances \<^verbatim>\<open>used._idx\<close>.
\<close>

fun host_step :: "host_action \<Rightarrow> 'c vring \<Rightarrow> 'c vring" where
  "host_step (Push ue) s =
     s\<lparr>used_elements := (used_elements s)[unat (masked s (ucast (used_idx s))) := ue],
       used_idx := used_idx s + 1\<rparr>"
| "host_step (Set_avail_event v) s = s\<lparr>avail_event := v\<rparr>"
| "host_step (Set_used_flags v) s = s\<lparr>used_flags := v\<rparr>"

fun host_steps :: "host_action list \<Rightarrow> 'c vring \<Rightarrow> 'c vring" where
  "host_steps [] s = s"
| "host_steps (a # as) s = host_steps as (host_step a s)"

section \<open>The kick policy\<close>

text \<open>\<^verbatim>\<open>used_layout::no_notify = 1\<close>, tested by \<^verbatim>\<open>notifications_disabled()\<close>.\<close>

definition VRING_USED_F_NO_NOTIFY :: u16 where
  "VRING_USED_F_NO_NOTIFY = 1"

definition notifications_disabled :: "'c vring \<Rightarrow> bool" where
  "notifications_disabled s = (used_flags s AND VRING_USED_F_NO_NOTIFY \<noteq> 0)"

text \<open>\<^verbatim>\<open>(uint16_t)(~0) / 2\<close>: the cast gives \<open>0xffff\<close>, the division is integer division.\<close>

definition force_kick_threshold :: u16 where
  "force_kick_threshold = (NOT 0) div 2"

text \<open>
  The last statement of \<^verbatim>\<open>kick()\<close>:
  \<^verbatim>\<open>if (need_kick || (_avail._avail_added_since_kick >= (uint16_t)(~0) / 2)) {
      _notifier->notify(); _avail._avail_added_since_kick = 0; }\<close>
\<close>

definition kick_notify :: "bool \<Rightarrow> 'c vring \<Rightarrow> 'c vring" where
  "kick_notify need_kick s =
     (if need_kick \<or> force_kick_threshold \<le> avail_added_since_kick s
      then (emit Notify s)\<lparr>avail_added_since_kick := 0\<rparr>
      else s)"

text \<open>
  \<^verbatim>\<open>vring::kick()\<close>; \<open>h\<close> is what the host writes before the loads that follow the
  fence. The subtraction \<^verbatim>\<open>(uint16_t)(avail_idx - avail_event - 1)\<close> is subtraction of
  16-bit words. Without event index the function returns early when the host has set
  \<^verbatim>\<open>NO_NOTIFY\<close>.
\<close>

definition kick :: "host_action list \<Rightarrow> 'c vring \<Rightarrow> 'c vring" where
  "kick h s0 =
     (let s = host_steps h (emit Fence s0) in
      if c_event_index (vconfig s) then
        (let avail_idx' = avail_idx s;
             avail_event' = avail_event s;
             need_kick = (avail_idx' - avail_event' - 1 < avail_added_since_kick s)
         in kick_notify need_kick s)
      else if notifications_disabled s then s
      else kick_notify True s)"

section \<open>The free list and construction\<close>

text \<open>
  \<^verbatim>\<open>vring::allocate_desc()\<close>: the assertion, then the head of the free list. The result
  is \<^verbatim>\<open>unsigned\<close>; \<^verbatim>\<open>_descs[desc]\<close> outside the table is an error of the model.
\<close>

definition allocate_desc :: "'c vring \<Rightarrow> error + (u32 \<times> 'c vring)" where
  "allocate_desc s =
     (if free_head s = - 1 then Inl Assert_failed
      else
        let desc = free_head s in
        if desc = free_last s then Inr (word_of_int desc, s\<lparr>free_last := - 1, free_head := - 1\<rparr>)
        else if desc < 0 \<or> int (length (descs s)) \<le> desc then Inl Out_of_bounds
        else Inr (word_of_int desc, s\<lparr>free_head := uint (d_next (descs s ! nat desc))\<rparr>))"

text \<open>
  The loop of \<^verbatim>\<open>vring::setup()\<close>: \<^verbatim>\<open>_descs[i]._next = i + 1\<close> for \<open>i\<close> from \<open>lo\<close> below
  \<open>lo + n\<close>, the sum truncated to the 16 bits of \<^verbatim>\<open>_next\<close>.
\<close>

fun setup_descs :: "nat \<Rightarrow> nat \<Rightarrow> desc list \<Rightarrow> error + desc list" where
  "setup_descs i 0 ds = Inr ds"
| "setup_descs i (Suc n) ds =
     (if length ds \<le> i then Inl Out_of_bounds
      else setup_descs (Suc i) n (ds[i := (ds ! i)\<lparr>d_next := word_of_nat (i + 1)\<rparr>]))"

text \<open>
  \<^verbatim>\<open>vring::setup()\<close>. \<^verbatim>\<open>_free_last = _config.size - 1\<close> is computed in \<^verbatim>\<open>unsigned\<close> and
  converted to \<^verbatim>\<open>int\<close>; the semaphore, a counter, is signalled \<^verbatim>\<open>_config.size\<close> times.
\<close>

definition vring_setup :: "'c vring \<Rightarrow> error + 'c vring" where
  "vring_setup s =
     (case setup_descs 0 (unat (c_size (vconfig s))) (descs s) of
        Inl e \<Rightarrow> Inl e
      | Inr ds \<Rightarrow>
          Inr (s\<lparr>descs := ds, free_head := 0, free_last := sint (c_size (vconfig s) - 1),
                 available_descriptors :=
                   available_descriptors s + unat (c_size (vconfig s))\<rparr>))"

definition zero_desc :: desc where
  "zero_desc = \<lparr>d_paddr = 0, d_len = 0, d_has_next = False, d_writeable = False,
                d_indirect = False, d_next = 0\<rparr>"

text \<open>
  \<^verbatim>\<open>vring::vring(config conf, bool poll_mode)\<close> over the storage that \<^verbatim>\<open>qp::qp\<close> hands it:
  \<^verbatim>\<open>virtio_buffer\<close> has zeroed that storage, so the three regions start as zeros. The
  tables have \<^verbatim>\<open>conf.size\<close> entries, the members their default initialisers.
\<close>

definition vring_ctor :: "config \<Rightarrow> bool \<Rightarrow> error + 'c vring" where
  "vring_ctor conf pm =
     vring_setup \<lparr>vconfig = conf,
            completions = replicate (unat (c_size conf)) None,
            descs = replicate (unat (c_size conf)) zero_desc,
            avail_flags = 0, avail_idx = 0,
            avail_ring = replicate (unat (c_size conf)) 0, used_event = 0,
            used_flags = 0, used_idx = 0,
            used_elements = replicate (unat (c_size conf)) \<lparr>ue_id = 0, ue_len = 0\<rparr>,
            avail_event = 0,
            avail_head = 0, avail_added_since_kick = 0, used_tail = 0,
            available_descriptors = 0, free_head = - 1, free_last = - 1, batch = [],
            poll_mode = pm, ready = [], trace = []\<rparr>"

section \<open>Completion\<close>

definition VRING_AVAIL_F_NO_INTERRUPT :: u16 where
  "VRING_AVAIL_F_NO_INTERRUPT = 1"

text \<open>\<^verbatim>\<open>vring::disable_interrupts()\<close>\<close>

definition disable_interrupts :: "'c vring \<Rightarrow> 'c vring" where
  "disable_interrupts s =
     (if \<not> poll_mode s \<and> \<not> c_event_index (vconfig s)
      then (emit (Store_avail_flags VRING_AVAIL_F_NO_INTERRUPT) s)
             \<lparr>avail_flags := VRING_AVAIL_F_NO_INTERRUPT\<rparr>
      else s)"

text \<open>
  \<^verbatim>\<open>vring::enable_interrupts()\<close>: in poll mode nothing; otherwise the store of the arm
  word, the fence, and the load of \<^verbatim>\<open>used._idx\<close>, before which the host writes \<open>h\<close>.
\<close>

definition enable_interrupts :: "host_action list \<Rightarrow> 'c vring \<Rightarrow> bool \<times> 'c vring" where
  "enable_interrupts h s =
     (if poll_mode s then (False, s)
      else
        let tail = used_tail s;
            s1 = (if \<not> c_event_index (vconfig s)
                  then (emit (Store_avail_flags 0) s)\<lparr>avail_flags := 0\<rparr>
                  else (emit (Store_used_event tail) s)\<lparr>used_event := tail\<rparr>);
            s2 = emit Fence s1;
            s3 = host_steps h s2;
            used_head = used_idx s3
        in (used_head \<noteq> tail, emit (Load_used_idx used_head) s3))"

text \<open>
  \<^verbatim>\<open>promise<size_t>::set_value\<close> on an entry of the completion table. Modelled from the
  spec: the promise type (\<^verbatim>\<open>core/future.hh\<close>) is not part of the sources; the spec has it
  as a single-shot completion carrying the length, which makes the continuation waiting on
  it runnable.
\<close>

definition set_value :: "nat \<Rightarrow> u32 \<Rightarrow> 'c vring \<Rightarrow> 'c vring" where
  "set_value i len s =
     (case completions s ! i of
        None \<Rightarrow> s
      | Some c \<Rightarrow> s\<lparr>completions := (completions s)[i := None], ready := ready s @ [(c, len)]\<rparr>)"

text \<open>
  The \<^verbatim>\<open>while (true)\<close> of \<^verbatim>\<open>do_complete()\<close> that follows a chain to its last descriptor.
  The descriptor table does not change during the walk, so a walk that has gone through
  more descriptors than the table has is in a cycle: the C++ never leaves the loop, and
  the model says \<open>Diverges\<close>. The first argument bounds the walk accordingly.
\<close>

fun chain_end :: "nat \<Rightarrow> desc list \<Rightarrow> u32 \<Rightarrow> error + u32" where
  "chain_end 0 ds hd_id = Inl Diverges"
| "chain_end (Suc fuel) ds hd_id =
     (if length ds \<le> unat hd_id then Inl Out_of_bounds
      else if \<not> d_has_next (ds ! unat hd_id) then Inr hd_id
      else chain_end fuel ds (ucast (d_next (ds ! unat hd_id))))"

text \<open>
  The first half of the body of the inner \<^verbatim>\<open>while\<close> of \<^verbatim>\<open>do_complete()\<close>: link the
  returned chain behind the free list.
\<close>

definition link_free :: "u32 \<Rightarrow> 'c vring \<Rightarrow> error + 'c vring" where
  "link_free hd_id s =
     (if free_last s \<noteq> - 1 then
        (if free_last s < 0 \<or> int (length (descs s)) \<le> free_last s then Inl Out_of_bounds
         else Inr (s\<lparr>descs := (descs s)[nat (free_last s) :=
                          (descs s ! nat (free_last s))\<lparr>d_next := ucast hd_id\<rparr>]\<rparr>))
      else Inr (s\<lparr>free_head := sint hd_id\<rparr>))"

text \<open>One turn of the inner \<^verbatim>\<open>while (used_head != _used._tail)\<close> of \<^verbatim>\<open>do_complete()\<close>.\<close>

definition complete_one :: "'c vring \<Rightarrow> error + 'c vring" where
  "complete_one s =
     (let slot = unat (masked s (ucast (used_tail s))) in
      if length (used_elements s) \<le> slot then Inl Out_of_bounds
      else
        let ue = used_elements s ! slot;
            s1 = s\<lparr>used_tail := used_tail s + 1\<rparr>
        in
        if length (completions s1) \<le> unat (ue_id ue) then Inl Out_of_bounds
        else
          let s2 = set_value (unat (ue_id ue)) (ue_len ue) s1;
              hd_id = ue_id ue
          in
          case link_free hd_id s2 of
            Inl e \<Rightarrow> Inl e
          | Inr s3 \<Rightarrow>
              (case chain_end (Suc (length (descs s3))) (descs s3) hd_id of
                 Inl e \<Rightarrow> Inl e
               | Inr last_id \<Rightarrow> Inr (s3\<lparr>free_last := sint last_id\<rparr>)))"

lemma link_free_used_tail: "link_free hd_id s = Inr s' \<Longrightarrow> used_tail s' = used_tail s"
  by (auto simp: link_free_def split: if_splits)

lemma set_value_used_tail: "used_tail (set_value i len s) = used_tail s"
  by (simp add: set_value_def split: option.splits)

lemma complete_one_used_tail:
  "complete_one s = Inr s' \<Longrightarrow> used_tail s' = used_tail s + 1"
  by (auto simp: complete_one_def Let_def set_value_used_tail
      split: if_splits sum.splits dest!: link_free_used_tail)

text \<open>The inner \<^verbatim>\<open>while (used_head != _used._tail)\<close> of \<^verbatim>\<open>do_complete()\<close>.\<close>

function drain_loop :: "u16 \<Rightarrow> 'c vring \<Rightarrow> error + 'c vring" where
  "drain_loop used_head s =
     (if used_head = used_tail s then Inr s
      else case complete_one s of
             Inl e \<Rightarrow> Inl e
           | Inr s1 \<Rightarrow> drain_loop used_head s1)"
  by pat_completeness auto
termination
proof (relation "measure (\<lambda>(used_head, s). unat (used_head - used_tail s))")
  show "wf (measure (\<lambda>(used_head, s :: 'c vring). unat (used_head - used_tail s)))"
    by simp
next
  fix used_head :: u16 and s s1 :: "'c vring"
  assume ne: "used_head \<noteq> used_tail s" and one: "complete_one s = Inr s1"
  have "used_head - used_tail s \<noteq> 0"
    using ne by simp
  then have lt: "unat (used_head - used_tail s - 1) < unat (used_head - used_tail s)"
    by (simp add: unat_minus_one unat_gt_0)
  have eq: "used_head - used_tail s1 = used_head - used_tail s - 1"
    using complete_one_used_tail [OF one] by simp
  show "((used_head, s1), (used_head, s))
      \<in> measure (\<lambda>(used_head, s). unat (used_head - used_tail s))"
    by (simp only: in_measure prod.case eq lt)
qed

declare drain_loop.simps [simp del]

text \<open>
  The body of the \<^verbatim>\<open>do\<close> loop of \<^verbatim>\<open>do_complete()\<close> up to its condition:
  \<^verbatim>\<open>disable_interrupts()\<close>, the acquire load of \<^verbatim>\<open>used._idx\<close>, before which the host
  writes \<open>h\<close>, and the inner loop.
\<close>

definition drain :: "host_action list \<Rightarrow> 'c vring \<Rightarrow> error + 'c vring" where
  "drain h s =
     (let s1 = host_steps h (disable_interrupts s);
          used_head = used_idx s1
      in drain_loop used_head (emit (Load_used_idx used_head) s1))"

lemma link_free_used_idx: "link_free i s = Inr s' \<Longrightarrow> used_idx s' = used_idx s"
  by (auto simp: link_free_def split: if_splits)

lemma complete_one_used_idx: "complete_one s = Inr s' \<Longrightarrow> used_idx s' = used_idx s"
  by (auto simp: complete_one_def Let_def set_value_def
      split: if_splits sum.splits option.splits dest!: link_free_used_idx)

lemma drain_loop_cursors:
  "drain_loop used_head s = Inr s' \<Longrightarrow> used_tail s' = used_head \<and> used_idx s' = used_idx s"
proof (induction used_head s rule: drain_loop.induct)
  case (1 used_head s)
  show ?case
  proof (cases "used_head = used_tail s")
    case True
    with "1.prems" show ?thesis by (simp add: drain_loop.simps)
  next
    case False
    with "1.prems" obtain s1 where one: "complete_one s = Inr s1"
      and rest: "drain_loop used_head s1 = Inr s'"
      by (auto simp: drain_loop.simps [of used_head s] split: sum.splits)
    from "1.IH" [OF False one rest] complete_one_used_idx [OF one]
    show ?thesis by simp
  qed
qed

lemma drain_quiet_cursors:
  "drain [] s = Inr s' \<Longrightarrow> used_tail s' = used_idx s' \<and> poll_mode s' = poll_mode s"
proof -
  assume d: "drain [] s = Inr s'"
  have pm: "drain_loop h t = Inr t' \<Longrightarrow> poll_mode t' = poll_mode t" for h and t t' :: "'c vring"
  proof (induction h t rule: drain_loop.induct)
    case (1 used_head s)
    show ?case
    proof (cases "used_head = used_tail s")
      case True
      with "1.prems" show ?thesis by (simp add: drain_loop.simps)
    next
      case False
      with "1.prems" obtain s1 where one: "complete_one s = Inr s1"
        and rest: "drain_loop used_head s1 = Inr t'"
        by (auto simp: drain_loop.simps [of used_head s] split: sum.splits)
      have "poll_mode s1 = poll_mode s"
        using one
        by (auto simp: complete_one_def Let_def set_value_def link_free_def
            split: if_splits sum.splits option.splits)
      with "1.IH" [OF False one rest] show ?thesis by simp
    qed
  qed
  define s0 where "s0 = emit (Load_used_idx (used_idx (disable_interrupts s))) (disable_interrupts s)"
  have idx0: "used_idx s0 = used_idx (disable_interrupts s)" and pm0: "poll_mode s0 = poll_mode s"
    by (simp_all add: s0_def emit_def disable_interrupts_def)
  from d have dl: "drain_loop (used_idx (disable_interrupts s)) s0 = Inr s'"
    by (simp add: drain_def Let_def s0_def)
  from drain_loop_cursors [OF dl] pm [OF dl] idx0 pm0 show ?thesis
    by simp
qed

text \<open>
  The schedule of the host during a call of \<^verbatim>\<open>do_complete()\<close>: for each turn of the
  \<^verbatim>\<open>do\<close> loop, what the host writes before the acquire load and what it writes between
  the store of the arm word and the load that follows the fence. When the schedule is
  used up the host writes nothing more.
\<close>

type_synonym schedule = "(host_action list \<times> host_action list) list"

definition this_turn :: "schedule \<Rightarrow> host_action list \<times> host_action list" where
  "this_turn hs = (case hs of [] \<Rightarrow> ([], []) | x # _ \<Rightarrow> x)"

text \<open>\<^verbatim>\<open>vring::do_complete()\<close>: \<^verbatim>\<open>do { ... } while (enable_interrupts());\<close>\<close>

function do_complete :: "schedule \<Rightarrow> 'c vring \<Rightarrow> error + 'c vring" where
  "do_complete hs s =
     (case drain (fst (this_turn hs)) s of
        Inl e \<Rightarrow> Inl e
      | Inr s1 \<Rightarrow>
          (let r = enable_interrupts (snd (this_turn hs)) s1
           in if fst r then do_complete (tl hs) (snd r) else Inr (snd r)))"
  by pat_completeness auto
termination
proof (relation "measure (\<lambda>(hs, s). length hs)")
  show "wf (measure (\<lambda>(hs :: schedule, s :: 'c vring). length hs))"
    by simp
next
  fix hs :: schedule and s s1 :: "'c vring" and r
  assume d: "drain (fst (this_turn hs)) s = Inr s1"
    and r: "r = enable_interrupts (snd (this_turn hs)) s1" and again: "fst r"
  have "hs \<noteq> []"
  proof
    assume e: "hs = []"
    with d have "used_tail s1 = used_idx s1"
      using drain_quiet_cursors [of s s1] by (simp add: this_turn_def)
    with r again e show False
      by (simp add: this_turn_def enable_interrupts_def Let_def emit_def split: if_splits)
  qed
  then show "((tl hs, snd r), (hs, s)) \<in> measure (\<lambda>(hs, s). length hs)"
    by (cases hs) simp_all
qed

declare do_complete.simps [simp del]

section \<open>Posting\<close>

text \<open>\<^verbatim>\<open>_avail._shared->_ring[masked(_avail._head++)] = desc_head;\<close>\<close>

definition ring_store :: "u16 \<Rightarrow> 'c vring \<Rightarrow> error + 'c vring" where
  "ring_store desc_head s =
     (let slot = unat (masked s (ucast (avail_head s))) in
      if length (avail_ring s) \<le> slot then Inl Out_of_bounds
      else Inr ((emit (Store_avail_ring slot desc_head) s)
                  \<lparr>avail_ring := (avail_ring s)[slot := desc_head],
                   avail_head := avail_head s + 1\<rparr>))"

text \<open>\<^verbatim>\<open>_avail._shared->_idx.store(_avail._head, std::memory_order_release);\<close>\<close>

definition store_avail_idx :: "'c vring \<Rightarrow> 'c vring" where
  "store_avail_idx s = (emit (Store_avail_idx (avail_head s)) s)\<lparr>avail_idx := avail_head s\<rparr>"

fun ring_stores :: "u16 list \<Rightarrow> 'c vring \<Rightarrow> error + 'c vring" where
  "ring_stores [] s = Inr s"
| "ring_stores (desc_head # rest) s =
     (case ring_store desc_head s of Inl e \<Rightarrow> Inl e | Inr s1 \<Rightarrow> ring_stores rest s1)"

text \<open>\<^verbatim>\<open>vring::flush_batch()\<close>; \<open>h\<close> is what the host writes before the loads of the kick.\<close>

definition flush_batch :: "host_action list \<Rightarrow> 'c vring \<Rightarrow> error + 'c vring" where
  "flush_batch h s =
     (if batch s = [] then Inr s
      else case ring_stores (batch s) s of
             Inl e \<Rightarrow> Inl e
           | Inr s1 \<Rightarrow> Inr (kick h (store_avail_idx (s1\<lparr>batch := []\<rparr>))))"

text \<open>
  The buffer-chain concept of \<^verbatim>\<open>vring::post\<close>: a container of buffers with a
  \<^verbatim>\<open>completed\<close> promise, here the continuation attached to it.
\<close>

record 'c buffer_chain =
  bc_buffers :: "buffer list"
  bc_completed :: 'c

text \<open>
  The inner \<^verbatim>\<open>for\<close> of \<^verbatim>\<open>vring::post\<close>. \<open>ph\<close> is the local \<^verbatim>\<open>pseudo_head\<close>; \<open>prev\<close> is
  \<open>None\<close> while \<^verbatim>\<open>prev\<close> points to it, and the index of the descriptor \<^verbatim>\<open>prev\<close> points to
  afterwards.
\<close>

fun post_buffers ::
  "buffer list \<Rightarrow> desc \<Rightarrow> nat option \<Rightarrow> 'c vring \<Rightarrow> error + (desc \<times> 'c vring)" where
  "post_buffers [] ph prev s = Inr (ph, s)"
| "post_buffers (b # bs) ph prev s =
     (case allocate_desc s of
        Inl e \<Rightarrow> Inl e
      | Inr (desc_idx, s1) \<Rightarrow>
          let ph1 = (case prev of
                       None \<Rightarrow> ph\<lparr>d_has_next := True, d_next := ucast desc_idx\<rparr>
                     | Some p \<Rightarrow> ph);
              ds1 = (case prev of
                       None \<Rightarrow> descs s1
                     | Some p \<Rightarrow> (descs s1)[p := (descs s1 ! p)
                                     \<lparr>d_has_next := True, d_next := ucast desc_idx\<rparr>])
          in
          if length ds1 \<le> unat desc_idx then Inl Out_of_bounds
          else
            let d = (ds1 ! unat desc_idx)
                      \<lparr>d_has_next := False, d_writeable := b_writeable b,
                       d_indirect := False, d_paddr := b_addr b, d_len := b_len b\<rparr>
            in post_buffers bs ph1 (Some (unat desc_idx))
                 (s1\<lparr>descs := ds1[unat desc_idx := d]\<rparr>))"

text \<open>The body of the \<^verbatim>\<open>std::for_each\<close> of \<^verbatim>\<open>vring::post\<close>, for one chain.\<close>

definition post_chain :: "'c buffer_chain \<Rightarrow> 'c vring \<Rightarrow> error + 'c vring" where
  "post_chain bc s =
     (case post_buffers (bc_buffers bc) zero_desc None s of
        Inl e \<Rightarrow> Inl e
      | Inr (pseudo_head, s1) \<Rightarrow>
          let desc_head = d_next pseudo_head in
          if length (completions s1) \<le> unat desc_head then Inl Out_of_bounds
          else
            let s2 = s1\<lparr>completions :=
                          (completions s1)[unat desc_head := Some (bc_completed bc)]\<rparr>
            in
            (case (if \<not> poll_mode s2 then ring_store desc_head s2
                   else Inr (s2\<lparr>batch := batch s2 @ [desc_head]\<rparr>)) of
               Inl e \<Rightarrow> Inl e
             | Inr s3 \<Rightarrow>
                 Inr (s3\<lparr>avail_added_since_kick := avail_added_since_kick s3 + 1\<rparr>)))"

fun post_chains :: "'c buffer_chain list \<Rightarrow> 'c vring \<Rightarrow> error + 'c vring" where
  "post_chains [] s = Inr s"
| "post_chains (bc # bcs) s =
     (case post_chain bc s of Inl e \<Rightarrow> Inl e | Inr s1 \<Rightarrow> post_chains bcs s1)"

text \<open>
  \<^verbatim>\<open>vring::post(begin, end)\<close>: the chains, then in interrupt mode the store of
  \<^verbatim>\<open>avail._idx\<close>, the kick and \<^verbatim>\<open>do_complete()\<close>, in poll mode the flush of a batch of 16
  or more. \<open>hk\<close> is what the host writes before the loads of the kick, \<open>hs\<close> its schedule
  during \<^verbatim>\<open>do_complete()\<close>.
\<close>

definition vring_post ::
  "host_action list \<Rightarrow> schedule \<Rightarrow> 'c buffer_chain list \<Rightarrow> 'c vring \<Rightarrow> error + 'c vring" where
  "vring_post hk hs bcs s =
     (case post_chains bcs s of
        Inl e \<Rightarrow> Inl e
      | Inr s1 \<Rightarrow>
          if \<not> poll_mode s1 then do_complete hs (kick hk (store_avail_idx s1))
          else if 16 \<le> length (batch s1) then flush_batch hk s1
          else Inr s1)"

text \<open>
  \<^verbatim>\<open>vring::complete()\<close> up to the suspension: \<^verbatim>\<open>do_complete()\<close>, then the call of
  \<^verbatim>\<open>_notifier->wait()\<close>, whose continuation calls \<^verbatim>\<open>complete()\<close> again when the host
  signals.
\<close>

definition vring_complete :: "schedule \<Rightarrow> 'c vring \<Rightarrow> error + 'c vring" where
  "vring_complete hs s =
     (case do_complete hs s of Inl e \<Rightarrow> Inl e | Inr s1 \<Rightarrow> Inr (emit Wait s1))"

text \<open>
  The poller that \<^verbatim>\<open>vring::run()\<close> registers in poll mode:
  \<^verbatim>\<open>flush_batch(); do_complete(); return true;\<close>
\<close>

definition poll_once :: "host_action list \<Rightarrow> schedule \<Rightarrow> 'c vring \<Rightarrow> error + 'c vring" where
  "poll_once hk hs s =
     (case flush_batch hk s of Inl e \<Rightarrow> Inl e | Inr s1 \<Rightarrow> do_complete hs s1)"

section \<open>Packets and the virtio-net header\<close>

text \<open>
  \<^verbatim>\<open>net::hw_features\<close>, \<^verbatim>\<open>ip_protocol_num\<close>, \<^verbatim>\<open>offload_info\<close>, \<^verbatim>\<open>fragment\<close> and \<^verbatim>\<open>packet\<close>
  are declared in headers outside \<^verbatim>\<open>net/virtio.cc\<close>. Their numeric members are unsigned;
  the model has them by value, and writes the conversion to the 16-bit members of the
  virtio-net header where \<^verbatim>\<open>txq::post\<close> stores them.
\<close>

record hw_features =
  tx_csum_l4_offload :: bool
  rx_csum_offload :: bool
  tx_tso :: bool
  tx_ufo :: bool
  mtu :: nat

datatype ip_protocol_num = Icmp | Tcp | Udp | Unused

record offload_info =
  protocol :: ip_protocol_num
  oi_needs_csum :: bool
  ip_hdr_len :: nat
  tcp_hdr_len :: nat
  udp_hdr_len :: nat

text \<open>\<^verbatim>\<open>fragment { char* base; size_t size; }\<close>\<close>

record fragment =
  f_base :: u64
  f_size :: u64

text \<open>
  Modelled from the spec: the packet type is not part of the sources. The spec has a packet
  as a list of fragments plus a deleter that releases the backing memory exactly once when
  the packet is dropped; \<open>p_owned\<close> lists the buffers the deleter frees. Its length is the
  sum of its fragments.
\<close>

record packet =
  p_frags :: "fragment list"
  p_offload_info :: offload_info
  p_owned :: "u64 list"

definition packet_len :: "packet \<Rightarrow> nat" where
  "packet_len p = sum_list (map (\<lambda>f. unat (f_size f)) (p_frags p))"


text \<open>
  \<^verbatim>\<open>qp::net_hdr\<close> and \<^verbatim>\<open>qp::net_hdr_mrg\<close>: 10 bytes, and 12 with \<^verbatim>\<open>num_buffers\<close>.
\<close>

record net_hdr_mrg =
  needs_csum :: bool
  flags_reserved :: "7 word"
  gso_type :: u8
  hdr_len :: u16
  gso_size :: u16
  csum_start :: u16
  csum_offset :: u16
  num_buffers :: u16

definition gso_none :: u8 where "gso_none = 0"
definition gso_tcpv4 :: u8 where "gso_tcpv4 = 1"
definition gso_udp :: u8 where "gso_udp = 3"

definition sizeof_net_hdr :: u64 where "sizeof_net_hdr = 10"
definition sizeof_net_hdr_mrg :: u64 where "sizeof_net_hdr_mrg = 12"

text \<open>\<^verbatim>\<open>net_hdr_mrg vhdr = {};\<close>\<close>

definition zero_vhdr :: net_hdr_mrg where
  "zero_vhdr = \<lparr>needs_csum = False, flags_reserved = 0, gso_type = 0, hdr_len = 0,
                gso_size = 0, csum_start = 0, csum_offset = 0, num_buffers = 0\<rparr>"

text \<open>
  \<^verbatim>\<open>sizeof(eth_hdr)\<close>: two 6-byte addresses and a 16-bit protocol, 14 bytes, the value the
  scenarios of the spec use (\<^verbatim>\<open>eth_hdr\<close> is declared outside the sources).
\<close>

definition eth_hdr_len :: nat where
  "eth_hdr_len = 14"

text \<open>
  The first part of \<^verbatim>\<open>qp::txq::post\<close>, which fills \<^verbatim>\<open>vhdr\<close>. The sums are computed in
  \<^verbatim>\<open>size_t\<close> and the difference \<^verbatim>\<open>mtu - ip_hdr_len - tcp_hdr_len\<close> in \<^verbatim>\<open>int\<close>; the stores
  truncate them to 16 bits.
\<close>

definition txq_vhdr :: "hw_features \<Rightarrow> packet \<Rightarrow> net_hdr_mrg" where
  "txq_vhdr hw p =
     (let vhdr = zero_vhdr; oi = p_offload_info p in
      if tx_csum_l4_offload hw then
        let ip_hdr_len' = ip_hdr_len oi; mtu' = mtu hw in
        if protocol oi = Tcp then
          let tcp_hdr_len' = tcp_hdr_len oi;
              vhdr1 = (if oi_needs_csum oi
                       then vhdr\<lparr>needs_csum := True,
                                 csum_start := word_of_nat (eth_hdr_len + ip_hdr_len'),
                                 csum_offset := 16\<rparr>
                       else vhdr)
          in if tx_tso hw \<and> mtu' + eth_hdr_len < packet_len p
             then vhdr1\<lparr>gso_type := gso_tcpv4,
                        hdr_len := word_of_nat (eth_hdr_len + ip_hdr_len' + tcp_hdr_len'),
                        gso_size := word_of_int (int mtu' - int ip_hdr_len' - int tcp_hdr_len')\<rparr>
             else vhdr1
        else if protocol oi = Udp then
          let udp_hdr_len' = udp_hdr_len oi;
              vhdr1 = (if oi_needs_csum oi
                       then vhdr\<lparr>needs_csum := True,
                                 csum_start := word_of_nat (eth_hdr_len + ip_hdr_len'),
                                 csum_offset := 6\<rparr>
                       else vhdr)
          in if tx_ufo hw \<and> mtu' + eth_hdr_len < packet_len p
             then vhdr1\<lparr>gso_type := gso_udp,
                        hdr_len := word_of_nat (eth_hdr_len + ip_hdr_len' + udp_hdr_len'),
                        gso_size := word_of_int (int mtu' - int ip_hdr_len' - int udp_hdr_len')\<rparr>
             else vhdr1
        else vhdr
      else vhdr)"





section \<open>The receive queue\<close>

text \<open>
  \<^verbatim>\<open>qp::rxq\<close>. The continuation of a posted receive buffer captures the buffer, so the
  completion table of the ring holds buffer addresses. \<open>deleters\<close> are the buffers that
  \<^verbatim>\<open>_deleters\<close> owns; \<open>l2received\<close> are the packets given to \<^verbatim>\<open>l2receive\<close>, in order.
\<close>

record rxq =
  rx_ring :: "u64 vring"
  remaining_buffers :: u32
  fragments :: "fragment list"
  deleters :: "u64 list"
  l2received :: "packet list"

text \<open>The offload information of a packet built from fragments: nothing to offload.\<close>

definition rx_offload_info :: offload_info where
  "rx_offload_info = \<lparr>protocol = Unused, oi_needs_csum = False, ip_hdr_len = 20,
                      tcp_hdr_len = 20, udp_hdr_len = 8\<rparr>"

text \<open>
  The branch \<^verbatim>\<open>if (_remaining_buffers == 0)\<close> at the head of the continuation: the first
  buffer of a packet. \<open>hdr\<close> is the header the host wrote at the start of the buffer;
  \<^verbatim>\<open>frag_len\<close> is a \<^verbatim>\<open>size_t\<close> and \<^verbatim>\<open>frag_len -= _dev._header_len\<close> wraps.
\<close>

definition rx_first_buffer ::
  "u64 \<Rightarrow> net_hdr_mrg \<Rightarrow> u64 \<Rightarrow> u64 \<Rightarrow> rxq \<Rightarrow> error + (u64 \<times> u64 \<times> rxq)" where
  "rx_first_buffer header_len hdr frag_buf frag_len q =
     (if remaining_buffers q = 0 then
        (if \<not> 1 \<le> num_buffers hdr then Inl Assert_failed
         else Inr (frag_buf + header_len, frag_len - header_len,
                   q\<lparr>remaining_buffers := ucast (num_buffers hdr),
                     fragments := [], deleters := []\<rparr>))
      else Inr (frag_buf, frag_len, q))"

text \<open>
  The branch \<^verbatim>\<open>if (_remaining_buffers == 0)\<close> at the end of the continuation: the last
  buffer. With one deleter the buffer is released from \<^verbatim>\<open>_deleters[0]\<close> into a free
  deleter; otherwise the vector is moved into the deleter. Either way the packet's deleter
  owns the buffers and \<^verbatim>\<open>_deleters\<close> is left empty.
\<close>

definition rx_last_buffer :: "rxq \<Rightarrow> rxq" where
  "rx_last_buffer q =
     (if remaining_buffers q = 0 then
        let del = (if length (deleters q) = 1 then [deleters q ! 0] else deleters q);
            q1 = q\<lparr>deleters := []\<rparr>;
            p = \<lparr>p_frags = fragments q1, p_offload_info = rx_offload_info, p_owned = del\<rparr>;
            q2 = q1\<lparr>l2received := l2received q1 @ [p]\<rparr>
        in q2\<lparr>rx_ring := (rx_ring q2)\<lparr>available_descriptors :=
                   available_descriptors (rx_ring q2) + length (fragments q2)\<rparr>\<rparr>
      else q)"

text \<open>
  The continuation that \<^verbatim>\<open>prepare_buffers\<close> attaches to the completion of a receive
  buffer \<open>buf\<close>, run with the length \<open>len\<close> the host reported.
\<close>

definition rx_completed :: "u64 \<Rightarrow> (u64 \<Rightarrow> net_hdr_mrg) \<Rightarrow> u64 \<Rightarrow> u32 \<Rightarrow> rxq \<Rightarrow> error + rxq" where
  "rx_completed header_len hdr_at buf len q =
     (case rx_first_buffer header_len (hdr_at buf) buf (ucast len) q of
        Inl e \<Rightarrow> Inl e
      | Inr (frag_buf, frag_len, q1) \<Rightarrow>
          Inr (rx_last_buffer
                 (q1\<lparr>fragments := fragments q1 @ [\<lparr>f_base = frag_buf, f_size = frag_len\<rparr>],
                     deleters := deleters q1 @ [buf],
                     remaining_buffers := remaining_buffers q1 - 1\<rparr>)))"

text \<open>The continuations of a run of completions, in the order the ring fulfilled them.\<close>

fun rx_completions ::
  "u64 \<Rightarrow> (u64 \<Rightarrow> net_hdr_mrg) \<Rightarrow> (u64 \<times> u32) list \<Rightarrow> rxq \<Rightarrow> error + rxq" where
  "rx_completions header_len hdr_at [] q = Inr q"
| "rx_completions header_len hdr_at ((buf, len) # rest) q =
     (case rx_completed header_len hdr_at buf len q of
        Inl e \<Rightarrow> Inl e
      | Inr q1 \<Rightarrow> rx_completions header_len hdr_at rest q1)"

text \<open>The fragment that a completion after the first one appends.\<close>

definition whole_fragment :: "u64 \<times> u32 \<Rightarrow> fragment" where
  "whole_fragment c = \<lparr>f_base = fst c, f_size = ucast (snd c)\<rparr>"

section \<open>Ring storage and configuration\<close>

text \<open>
  Modelled from the spec: \<^verbatim>\<open>align_up\<close> (\<^verbatim>\<open>core/align.hh\<close>) is not part of the sources;
  it rounds up to the next multiple of the alignment.
\<close>

definition align_up :: "nat \<Rightarrow> nat \<Rightarrow> nat" where
  "align_up v a = ((v + a - 1) div a) * a"

text \<open>\<^verbatim>\<open>qp::vring_storage_size\<close>, in \<^verbatim>\<open>size_t\<close>.\<close>

definition vring_storage_size :: "u64 \<Rightarrow> u64" where
  "vring_storage_size ring_size = 3 * 4096 + ring_size * (16 + 2 + 8)"

text \<open>\<^verbatim>\<open>virtio_buffer(size)\<close>: the bytes of the block after \<^verbatim>\<open>bzero\<close>.\<close>

definition virtio_buffer :: "u64 \<Rightarrow> u8 list" where
  "virtio_buffer sz = replicate (unat sz) 0"

text \<open>The ring feature bit, bit 29 in the virtio standard.\<close>

definition VIRTIO_RING_F_EVENT_IDX :: u64 where
  "VIRTIO_RING_F_EVENT_IDX = push_bit 29 1"

text \<open>
  \<^verbatim>\<open>qp::common_config\<close>. \<^verbatim>\<open>16 * r.size\<close> and \<^verbatim>\<open>2 * r.size\<close> are products in \<^verbatim>\<open>unsigned\<close>,
  added to a pointer.
\<close>

definition common_config :: "u64 \<Rightarrow> config \<Rightarrow> config" where
  "common_config features r =
     (let r1 = r\<lparr>c_avail := c_descs r + unat (16 * c_size r)\<rparr>;
          r2 = r1\<lparr>c_used := align_up (c_avail r1 + unat (2 * c_size r1) + 6) 4096\<rparr>
      in r2\<lparr>c_event_index := (features AND VIRTIO_RING_F_EVENT_IDX \<noteq> 0),
            c_indirect := False\<rparr>)"

text \<open>
  \<^verbatim>\<open>qp::txq_config\<close> and \<^verbatim>\<open>qp::rxq_config\<close>; \<open>storage\<close> is the address of the block. The
  members that \<^verbatim>\<open>vring::config r;\<close> leaves uninitialised are all assigned.
\<close>

definition txq_config :: "u64 \<Rightarrow> nat \<Rightarrow> u64 \<Rightarrow> config" where
  "txq_config features storage tx_ring_size =
     common_config features
       \<lparr>c_descs = storage, c_avail = 0, c_used = 0, c_size = ucast tx_ring_size,
        c_event_index = False, c_indirect = False, c_mergable_buffers = False\<rparr>"

definition rxq_config :: "u64 \<Rightarrow> nat \<Rightarrow> u64 \<Rightarrow> config" where
  "rxq_config features storage rx_ring_size =
     common_config features
       \<lparr>c_descs = storage, c_avail = 0, c_used = 0, c_size = ucast rx_ring_size,
        c_event_index = False, c_indirect = False, c_mergable_buffers = True\<rparr>"

section \<open>Options\<close>

text \<open>
  A \<^verbatim>\<open>boost::program_options::variables_map\<close>: option names to typed values.
  \<^verbatim>\<open>as<T>()\<close> on a missing value or a value of another type throws.
\<close>

datatype opt_value = Opt_string string | Opt_unsigned u32 | Opt_bool bool

type_synonym variables_map = "string \<rightharpoonup> opt_value"

datatype opt_error = Bad_any_cast

definition opt_count :: "variables_map \<Rightarrow> string \<Rightarrow> nat" where
  "opt_count opts k = (if opts k = None then 0 else 1)"

definition as_unsigned :: "opt_value option \<Rightarrow> opt_error + u32" where
  "as_unsigned v = (case v of Some (Opt_unsigned n) \<Rightarrow> Inr n | _ \<Rightarrow> Inl Bad_any_cast)"

text \<open>\<^verbatim>\<open>config_ring_size\<close>, which returns a \<^verbatim>\<open>size_t\<close>.\<close>

definition config_ring_size :: "variables_map \<Rightarrow> opt_error + u64" where
  "config_ring_size opts =
     (if opt_count opts ''event-index'' \<noteq> 0 then
        (case as_unsigned (opts ''virtio-ring-size'') of
           Inl e \<Rightarrow> Inl e
         | Inr n \<Rightarrow> Inr (ucast n))
      else Inr 256)"

text \<open>
  \<^verbatim>\<open>get_virtio_net_options_description()\<close>: the options with their default values.
\<close>

definition get_virtio_net_options_description :: "(string \<times> opt_value) list" where
  "get_virtio_net_options_description =
     [(''event-index'', Opt_string ''on''),
      (''csum-offload'', Opt_string ''on''),
      (''tso'', Opt_string ''on''),
      (''ufo'', Opt_string ''on''),
      (''virtio-ring-size'', Opt_unsigned 256),
      (''virtio-poll-mode'', Opt_bool False)]"

text \<open>
  What parsing a command line against a description stores: for each described option
  the value given, if any, and its default otherwise. \<open>given\<close> holds the values of the
  command line, already converted to the types of their options.
\<close>

definition stored_options :: "(string \<times> opt_value) list \<Rightarrow> variables_map \<Rightarrow> variables_map" where
  "stored_options description given =
     (\<lambda>k. case map_of description k of
             None \<Rightarrow> None
           | Some d \<Rightarrow> (case given k of None \<Rightarrow> Some d | Some v \<Rightarrow> Some v))"

text \<open>
  The ring sizes that the constructor of \<^verbatim>\<open>qp_vhost\<close> passes to \<^verbatim>\<open>qp::qp\<close>:
  \<^verbatim>\<open>qp(dev, config_ring_size(opts), config_ring_size(opts), ...)\<close>, receive ring first.
\<close>

definition qp_vhost_ring_sizes :: "variables_map \<Rightarrow> opt_error + (u64 \<times> u64)" where
  "qp_vhost_ring_sizes opts =
     (case config_ring_size opts of
        Inl e \<Rightarrow> Inl e
      | Inr rx_ring_size \<Rightarrow>
          (case config_ring_size opts of
             Inl e \<Rightarrow> Inl e
           | Inr tx_ring_size \<Rightarrow> Inr (rx_ring_size, tx_ring_size)))"

section \<open>Observations on a ring\<close>

text \<open>How many times an operation called \<^verbatim>\<open>notify()\<close>: the growth of the log.\<close>

definition notify_count :: "event list \<Rightarrow> nat" where
  "notify_count t = count_list t Notify"

definition kicks :: "host_action list \<Rightarrow> 'c vring \<Rightarrow> nat" where
  "kicks h s = notify_count (trace (kick h s)) - notify_count (trace s)"

text \<open>
  The values that \<^verbatim>\<open>kick()\<close> loads after its fence, when the host writes \<open>h\<close> before
  the loads.
\<close>

definition at_kick_loads :: "host_action list \<Rightarrow> 'c vring \<Rightarrow> 'c vring" where
  "at_kick_loads h s = host_steps h (emit Fence s)"

text \<open>A ring state to evaluate the policy on: everything zero, ring size 4.\<close>

definition idle_ring_of :: "bool \<Rightarrow> 'c vring" where
  "idle_ring_of ev =
     \<lparr>vconfig = \<lparr>c_descs = 0, c_avail = 64, c_used = 4096, c_size = 4,
                 c_event_index = ev, c_indirect = False, c_mergable_buffers = False\<rparr>,
      completions = replicate 4 None,
      descs = replicate 4 zero_desc,
      avail_flags = 0, avail_idx = 0, avail_ring = replicate 4 0, used_event = 0,
      used_flags = 0, used_idx = 0,
      used_elements = replicate 4 \<lparr>ue_id = 0, ue_len = 0\<rparr>, avail_event = 0,
      avail_head = 0, avail_added_since_kick = 0, used_tail = 0,
      available_descriptors = 4, free_head = 0, free_last = 3, batch = [],
      poll_mode = False, ready = [], trace = []\<rparr>"

definition idle_ring :: "bool \<Rightarrow> unit vring" where
  "idle_ring ev = idle_ring_of ev"

text \<open>A receive queue between two packets, on such a ring.\<close>

definition idle_rxq :: rxq where
  "idle_rxq = \<lparr>rx_ring = idle_ring_of False, remaining_buffers = 0, fragments = [],
               deleters = [], l2received = []\<rparr>"

text \<open>A TCP segment of \<open>n\<close> bytes in one fragment that asks for its checksum.\<close>

definition tcp_segment :: "nat \<Rightarrow> packet" where
  "tcp_segment n =
     \<lparr>p_frags = [\<lparr>f_base = 65536, f_size = word_of_nat n\<rparr>],
      p_offload_info = \<lparr>protocol = Tcp, oi_needs_csum = True, ip_hdr_len = 20,
                        tcp_hdr_len = 20, udp_hdr_len = 8\<rparr>,
      p_owned = []\<rparr>"

text \<open>The hardware features with the given checksum and TSO settings, and an MTU of 1500.\<close>

definition hw_with :: "bool \<Rightarrow> bool \<Rightarrow> hw_features" where
  "hw_with csum tso =
     \<lparr>tx_csum_l4_offload = csum, rx_csum_offload = csum, tx_tso = tso, tx_ufo = True,
      mtu = 1500\<rparr>"

section \<open>The free list, the chains and the well-behaved host\<close>

text \<open>
  The free list as \<^verbatim>\<open>allocate_desc()\<close> would pop it: from \<^verbatim>\<open>_free_head\<close> along \<^verbatim>\<open>_next\<close>
  to \<^verbatim>\<open>_free_last\<close>. The walk stops after as many descriptors as the table has.
\<close>

fun free_walk :: "nat \<Rightarrow> desc list \<Rightarrow> int \<Rightarrow> int \<Rightarrow> nat list" where
  "free_walk 0 ds cur lst = []"
| "free_walk (Suc n) ds cur lst =
     (if cur < 0 \<or> int (length ds) \<le> cur then []
      else if cur = lst then [nat cur]
      else nat cur # free_walk n ds (uint (d_next (ds ! nat cur))) lst)"

definition free_list :: "'c vring \<Rightarrow> nat list" where
  "free_list s =
     (if free_head s = - 1 then []
      else free_walk (length (descs s)) (descs s) (free_head s) (free_last s))"

definition free_count :: "'c vring \<Rightarrow> nat" where
  "free_count s = length (free_list s)"

text \<open>
  The chain that starts at a descriptor, as \<^verbatim>\<open>do_complete()\<close> follows it: along
  \<^verbatim>\<open>_next\<close> while \<^verbatim>\<open>has_next\<close> is set.
\<close>

fun chain_walk :: "nat \<Rightarrow> desc list \<Rightarrow> nat \<Rightarrow> nat list" where
  "chain_walk 0 ds i = []"
| "chain_walk (Suc n) ds i =
     (if length ds \<le> i then []
      else if \<not> d_has_next (ds ! i) then [i]
      else i # chain_walk n ds (unat (d_next (ds ! i))))"

definition chain_of :: "'c vring \<Rightarrow> nat \<Rightarrow> nat list" where
  "chain_of s h = chain_walk (length (descs s)) (descs s) h"

text \<open>
  The chain heads with an outstanding completion: the entries of the completion table
  that hold a promise not yet fulfilled. \<open>outstanding_count\<close> is the number of descriptors
  in their chains.
\<close>

definition outstanding :: "'c vring \<Rightarrow> nat list" where
  "outstanding s = filter (\<lambda>i. completions s ! i \<noteq> None) [0..<length (completions s)]"

definition outstanding_count :: "'c vring \<Rightarrow> nat" where
  "outstanding_count s = sum_list (map (\<lambda>h. length (chain_of s h)) (outstanding s))"

text \<open>
  The used elements the host has written and the driver has not consumed, from
  \<^verbatim>\<open>used._tail\<close> up to \<^verbatim>\<open>used._idx\<close>, by the chain head they return.
\<close>

definition pending_ids :: "'c vring \<Rightarrow> nat list" where
  "pending_ids s =
     map (\<lambda>k. unat (ue_id (used_elements s
                               ! unat (masked s (ucast (used_tail s + word_of_nat k))))))
         [0..<unat (used_idx s - used_tail s)]"

fun push_ids :: "host_action list \<Rightarrow> nat list" where
  "push_ids [] = []"
| "push_ids (Push ue # h) = unat (ue_id ue) # push_ids h"
| "push_ids (Set_avail_event v # h) = push_ids h"
| "push_ids (Set_used_flags v # h) = push_ids h"

text \<open>
  A well-behaved host returns only heads of chains with an outstanding completion, and
  each of them once. The spec has this as the assumption of the ring protocol.
\<close>

definition host_ok :: "'c vring \<Rightarrow> host_action list \<Rightarrow> bool" where
  "host_ok s h =
     (distinct (pending_ids s @ push_ids h) \<and> set (push_ids h) \<subseteq> set (outstanding s))"

definition schedule_actions :: "schedule \<Rightarrow> host_action list" where
  "schedule_actions hs = concat (map (\<lambda>turn. fst turn @ snd turn) hs)"

text \<open>The ring sizes of the spec: powers of two up to 32768.\<close>

definition ring_size_ok :: "nat \<Rightarrow> bool" where
  "ring_size_ok n = (\<exists>k\<le>15. n = 2 ^ k)"

text \<open>
  The states a ring can be in between two operations: after construction, and after
  any of \<^verbatim>\<open>post\<close>, \<^verbatim>\<open>do_complete\<close>, \<^verbatim>\<open>complete\<close>, \<^verbatim>\<open>flush_batch\<close> and the poller, with a
  well-behaved host writing before, between and during them. Chains are posted with at
  least one buffer. \<^verbatim>\<open>allocate_desc()\<close> is private and runs inside \<^verbatim>\<open>post\<close> only. The
  queues that own the ring take permits from its semaphore and return them between the
  operations.
\<close>

inductive reachable :: "'c vring \<Rightarrow> bool" where
  ctor: "ring_size_ok (unat (c_size conf)) \<Longrightarrow> vring_ctor conf pm = Inr s \<Longrightarrow> reachable s"
| host: "reachable s \<Longrightarrow> host_ok s h \<Longrightarrow> reachable (host_steps h s)"
| post: "reachable s \<Longrightarrow> \<forall>bc \<in> set bcs. bc_buffers bc \<noteq> [] \<Longrightarrow>
         post_chains bcs s = Inr s1 \<Longrightarrow> host_ok s1 (hk @ schedule_actions hs) \<Longrightarrow>
         vring_post hk hs bcs s = Inr s' \<Longrightarrow> reachable s'"
| do_complete: "reachable s \<Longrightarrow> host_ok s (schedule_actions hs) \<Longrightarrow>
         do_complete hs s = Inr s' \<Longrightarrow> reachable s'"
| complete: "reachable s \<Longrightarrow> host_ok s (schedule_actions hs) \<Longrightarrow>
         vring_complete hs s = Inr s' \<Longrightarrow> reachable s'"
| flush_batch: "reachable s \<Longrightarrow> host_ok s hk \<Longrightarrow> flush_batch hk s = Inr s' \<Longrightarrow> reachable s'"
| poll: "reachable s \<Longrightarrow> host_ok s (hk @ schedule_actions hs) \<Longrightarrow>
         poll_once hk hs s = Inr s' \<Longrightarrow> reachable s'"
| permits: "reachable s \<Longrightarrow> reachable (s\<lparr>available_descriptors := n\<rparr>)"

text \<open>Consecutive descriptors of a list are linked by \<^verbatim>\<open>_next\<close>.\<close>

fun linked :: "desc list \<Rightarrow> nat list \<Rightarrow> bool" where
  "linked ds [] = True"
| "linked ds [x] = True"
| "linked ds (x # y # ys) = (unat (d_next (ds ! x)) = y \<and> linked ds (y # ys))"

text \<open>
  A list of descriptors is a chain: each but the last has \<^verbatim>\<open>has_next\<close> set and is linked
  to the one after it, and the last has \<^verbatim>\<open>has_next\<close> clear.
\<close>

fun is_chain :: "desc list \<Rightarrow> nat list \<Rightarrow> bool" where
  "is_chain ds [] = False"
| "is_chain ds [x] = (\<not> d_has_next (ds ! x))"
| "is_chain ds (x # y # ys) =
     (d_has_next (ds ! x) \<and> unat (d_next (ds ! x)) = y \<and> is_chain ds (y # ys))"

text \<open>\<^verbatim>\<open>_free_head\<close> and \<^verbatim>\<open>_free_last\<close> are the ends of the list, or \<open>-1\<close> for the empty list.\<close>

definition free_ends :: "'c vring \<Rightarrow> nat list \<Rightarrow> bool" where
  "free_ends s fl =
     (if fl = [] then free_head s = - 1 \<and> free_last s = - 1
      else free_head s = int (hd fl) \<and> free_last s = int (last fl))"

text \<open>
  The invariant, for a free list \<open>fl\<close>, the chain \<open>ch h\<close> of every outstanding head \<open>h\<close>,
  and the descriptors \<open>cur\<close> that a running \<^verbatim>\<open>post\<close> has allocated for the chain it is
  building: every descriptor of the table is in exactly one of them, exactly once.
\<close>

definition ring_inv :: "'c vring \<Rightarrow> nat list \<Rightarrow> (nat \<Rightarrow> nat list) \<Rightarrow> nat list \<Rightarrow> bool" where
  "ring_inv s fl ch cur \<longleftrightarrow>
     ring_size_ok (length (descs s))
     \<and> unat (c_size (vconfig s)) = length (descs s)
     \<and> length (completions s) = length (descs s)
     \<and> length (used_elements s) = length (descs s)
     \<and> length (avail_ring s) = length (descs s)
     \<and> linked (descs s) fl \<and> free_ends s fl
     \<and> (\<forall>h \<in> set (outstanding s). is_chain (descs s) (ch h) \<and> hd (ch h) = h)
     \<and> mset fl + mset cur + (\<Sum>h \<in> set (outstanding s). mset (ch h))
           = mset_set {0..<length (descs s)}
     \<and> distinct (pending_ids s) \<and> set (pending_ids s) \<subseteq> set (outstanding s)"

text \<open>
  The order of publication: the heads stored to the available ring, in the order of the
  stores, followed by the heads of the batch, which \<^verbatim>\<open>flush_batch()\<close> stores in the
  order of the batch.
\<close>

fun stored_heads :: "event list \<Rightarrow> u16 list" where
  "stored_heads [] = []"
| "stored_heads (Store_avail_ring slot h # t) = h # stored_heads t"
| "stored_heads (e # t) = stored_heads t"

definition pub_order :: "'c vring \<Rightarrow> u16 list" where
  "pub_order s = stored_heads (trace s) @ batch s"

text \<open>What an operation that publishes nothing leaves as it is.\<close>

definition quiet :: "'c vring \<Rightarrow> 'c vring \<Rightarrow> bool" where
  "quiet s s' \<longleftrightarrow> batch s' = batch s \<and> poll_mode s' = poll_mode s
     \<and> stored_heads (trace s') = stored_heads (trace s)"

text \<open>The buffer a descriptor describes, and the buffers of a list of descriptors.\<close>

definition desc_buffer :: "desc \<Rightarrow> buffer" where
  "desc_buffer d = \<lparr>b_addr = d_paddr d, b_len = d_len d, b_writeable = d_writeable d\<rparr>"

definition chain_buffers :: "desc list \<Rightarrow> nat list \<Rightarrow> buffer list" where
  "chain_buffers ds c = map (\<lambda>i. desc_buffer (ds ! i)) c"

text \<open>What the loops of \<^verbatim>\<open>post\<close> change before the chain is published.\<close>

definition post_frame :: "'c vring \<Rightarrow> 'c vring \<Rightarrow> bool" where
  "post_frame s s' \<longleftrightarrow>
     vconfig s' = vconfig s \<and> completions s' = completions s
     \<and> avail_flags s' = avail_flags s \<and> avail_idx s' = avail_idx s
     \<and> avail_ring s' = avail_ring s \<and> used_event s' = used_event s
     \<and> used_flags s' = used_flags s \<and> used_idx s' = used_idx s
     \<and> used_elements s' = used_elements s \<and> avail_event s' = avail_event s
     \<and> avail_head s' = avail_head s
     \<and> avail_added_since_kick s' = avail_added_since_kick s
     \<and> used_tail s' = used_tail s
     \<and> available_descriptors s' = available_descriptors s
     \<and> batch s' = batch s \<and> poll_mode s' = poll_mode s
     \<and> ready s' = ready s \<and> trace s' = trace s"

text \<open>
  What holds of a ring between two operations: the invariant, for some free list and some
  chains, and an empty batch in interrupt mode.
\<close>

definition ring_ok :: "'c vring \<Rightarrow> bool" where
  "ring_ok s \<longleftrightarrow> (\<exists>fl ch. ring_inv s fl ch []) \<and> (\<not> poll_mode s \<longrightarrow> batch s = [])"



text \<open>A configuration of four descriptors, and the ring constructed for it.\<close>

definition conf4 :: "bool \<Rightarrow> config" where
  "conf4 ev = \<lparr>c_descs = 0, c_avail = 64, c_used = 4096, c_size = 4,
               c_event_index = ev, c_indirect = False, c_mergable_buffers = False\<rparr>"

definition ring4 :: "bool \<Rightarrow> bool \<Rightarrow> unit vring" where
  "ring4 ev pm = projr (vring_ctor (conf4 ev) pm)"

text \<open>A read-only buffer of 100 bytes, and the ring after a chain of two such is posted.\<close>

definition buf100 :: buffer where
  "buf100 = \<lparr>b_addr = 8192, b_len = 100, b_writeable = False\<rparr>"

definition ring4_posted :: "bool \<Rightarrow> unit vring" where
  "ring4_posted ev =
     projr (vring_post [] [] [\<lparr>bc_buffers = [buf100, buf100], bc_completed = ()\<rparr>]
              (ring4 ev False))"

text \<open>The same ring after the host has returned the chain and \<^verbatim>\<open>do_complete()\<close> has run.\<close>

definition ring4_completed :: "bool \<Rightarrow> unit vring" where
  "ring4_completed ev =
     projr (do_complete [([Push \<lparr>ue_id = 0, ue_len = 200\<rparr>], [])] (ring4_posted ev))"



section \<open>Facts about the kick policy\<close>

lemma force_kick_threshold_eq: "force_kick_threshold = 32767"
  by (simp add: force_kick_threshold_def)

lemma notify_count_append [simp]:
  "notify_count (t @ u) = notify_count t + notify_count u"
  by (induction t) (simp_all add: notify_count_def)

lemma notify_count_Cons [simp]:
  "notify_count (e # t) = (if e = Notify then 1 else 0) + notify_count t"
  by (simp add: notify_count_def)

lemma notify_count_Nil [simp]: "notify_count [] = 0"
  by (simp add: notify_count_def)

lemma host_step_driver_fields [simp]:
  "vconfig (host_step a s) = vconfig s"
  "avail_idx (host_step a s) = avail_idx s"
  "avail_added_since_kick (host_step a s) = avail_added_since_kick s"
  "trace (host_step a s) = trace s"
  by (cases a; simp)+

lemma host_steps_driver_fields [simp]:
  "vconfig (host_steps h s) = vconfig s"
  "avail_idx (host_steps h s) = avail_idx s"
  "avail_added_since_kick (host_steps h s) = avail_added_since_kick s"
  "trace (host_steps h s) = trace s"
  by (induction h arbitrary: s; simp)+

lemma at_kick_loads_driver_fields [simp]:
  "vconfig (at_kick_loads h s) = vconfig s"
  "avail_idx (at_kick_loads h s) = avail_idx s"
  "avail_added_since_kick (at_kick_loads h s) = avail_added_since_kick s"
  "trace (at_kick_loads h s) = trace s @ [Fence]"
  by (simp_all add: at_kick_loads_def emit_def)

lemma kick_unfold:
  "kick h s =
     (if c_event_index (vconfig s) then
        kick_notify (avail_idx s - avail_event (at_kick_loads h s) - 1
                       < avail_added_since_kick s) (at_kick_loads h s)
      else if notifications_disabled (at_kick_loads h s) then at_kick_loads h s
      else kick_notify True (at_kick_loads h s))"
  by (simp add: kick_def Let_def at_kick_loads_def [symmetric])

lemma kicks_event_index:
  "c_event_index (vconfig s) \<Longrightarrow>
   kicks h s = (if avail_idx s - avail_event (at_kick_loads h s) - 1 < avail_added_since_kick s
                 \<or> 32767 \<le> avail_added_since_kick s then 1 else 0)"
  by (simp add: kicks_def kick_unfold kick_notify_def emit_def force_kick_threshold_eq)

lemma kicks_no_event_index:
  "\<not> c_event_index (vconfig s) \<Longrightarrow>
   kicks h s = (if notifications_disabled (at_kick_loads h s) then 0 else 1)"
  by (simp add: kicks_def kick_unfold kick_notify_def emit_def)

text \<open>
  C1 (as stated): with event index, \<^verbatim>\<open>notify()\<close> is called if and only if
  \<^verbatim>\<open>(uint16_t)(avail.idx - avail_event - 1) < avail_added_since_kick\<close>. This fails: with
  \<open>avail_event = avail.idx\<close> and 32767 chains added since the last kick the condition is
  false, and the forced kick of the last \<^verbatim>\<open>if\<close> notifies all the same.
\<close>

theorem C1_kick_iff_counterexample:
  "c_event_index (vconfig ((idle_ring True)\<lparr>avail_added_since_kick := 32767\<rparr>)) \<and>
   avail_event (at_kick_loads [] ((idle_ring True)\<lparr>avail_added_since_kick := 32767\<rparr>))
     = avail_idx (at_kick_loads [] ((idle_ring True)\<lparr>avail_added_since_kick := 32767\<rparr>)) \<and>
   \<not> (kicks [] ((idle_ring True)\<lparr>avail_added_since_kick := 32767\<rparr>) = 1
      \<longleftrightarrow> avail_idx (at_kick_loads [] ((idle_ring True)\<lparr>avail_added_since_kick := 32767\<rparr>))
            - avail_event (at_kick_loads [] ((idle_ring True)\<lparr>avail_added_since_kick := 32767\<rparr>))
            - 1
          < avail_added_since_kick ((idle_ring True)\<lparr>avail_added_since_kick := 32767\<rparr>))"
  by (simp add: kicks_event_index idle_ring_def idle_ring_of_def at_kick_loads_def emit_def)

text \<open>
  C1 (amended): with event index, \<^verbatim>\<open>notify()\<close> is called (once) if and only if
  \<^verbatim>\<open>(uint16_t)(avail.idx - avail_event - 1) < avail_added_since_kick\<close> or
  \<^verbatim>\<open>avail_added_since_kick >= 32767\<close>, for the values of \<^verbatim>\<open>avail.idx\<close> and \<^verbatim>\<open>avail_event\<close>
  loaded after the fence; in particular with \<open>avail_event = avail.idx - 1 - k\<close> for a
  \<open>k < avail_added_since_kick\<close> a kick occurs, and with \<open>avail_event = avail.idx\<close> and fewer
  than 32767 chains added no kick occurs.
\<close>

theorem C1_kick_event_index:
  assumes "c_event_index (vconfig s)"
  shows "(kicks h s = 1 \<longleftrightarrow>
            avail_idx (at_kick_loads h s) - avail_event (at_kick_loads h s) - 1
              < avail_added_since_kick s
            \<or> 32767 \<le> avail_added_since_kick s)
       \<and> (kicks h s = 0 \<or> kicks h s = 1)
       \<and> (\<forall>k. k < avail_added_since_kick s
                \<and> avail_event (at_kick_loads h s) = avail_idx (at_kick_loads h s) - 1 - k
              \<longrightarrow> kicks h s = 1)
       \<and> (avail_event (at_kick_loads h s) = avail_idx (at_kick_loads h s)
             \<and> avail_added_since_kick s < 32767
              \<longrightarrow> kicks h s = 0)"
proof -
  have wrap: "avail_idx s - avail_idx s - 1 < avail_added_since_kick s \<longleftrightarrow> False"
  proof -
    have "avail_idx s - avail_idx s - 1 = (- 1 :: u16)" by simp
    moreover have "\<not> (- 1 :: u16) < avail_added_since_kick s"
      by (simp add: not_less)
    ultimately show ?thesis by simp
  qed
  have inv_k: "avail_idx s - (avail_idx s - 1 - k) - 1 = k" for k
    by simp
  show ?thesis
    using assms by (auto simp: kicks_event_index wrap inv_k not_le)
qed

theorem C1_kick_event_index_witness:
  "c_event_index (vconfig ((idle_ring True)\<lparr>avail_idx := 7, avail_added_since_kick := 3\<rparr>)) \<and>
   kicks [Set_avail_event 5]
     ((idle_ring True)\<lparr>avail_idx := 7, avail_added_since_kick := 3\<rparr>) = 1 \<and>
   kicks [Set_avail_event 7]
     ((idle_ring True)\<lparr>avail_idx := 7, avail_added_since_kick := 3\<rparr>) = 0"
proof -
  have a: "c_event_index
             (vconfig ((idle_ring True)\<lparr>avail_idx := 7, avail_added_since_kick := 3\<rparr>))"
    by (simp add: idle_ring_def idle_ring_of_def)
  show ?thesis
    using a C1_kick_event_index [OF a, of "[Set_avail_event 5]"]
      C1_kick_event_index [OF a, of "[Set_avail_event 7]"]
    by (simp add: idle_ring_def idle_ring_of_def at_kick_loads_def emit_def)
qed

text \<open>
  C7 (as stated): with \<^verbatim>\<open>avail_added_since_kick >= 2^15\<close> a kick always happens, whatever the
  host's \<^verbatim>\<open>NO_NOTIFY\<close> flag says. This fails without event index: \<^verbatim>\<open>kick()\<close> returns before
  the forced-kick test when \<^verbatim>\<open>notifications_disabled()\<close> holds.
\<close>

theorem C7_forced_kick_counterexample:
  "2 ^ 15 \<le> avail_added_since_kick
              ((idle_ring False)\<lparr>used_flags := 1, avail_added_since_kick := 40000\<rparr>) \<and>
   kicks [] ((idle_ring False)\<lparr>used_flags := 1, avail_added_since_kick := 40000\<rparr>) = 0"
  by (simp add: kicks_no_event_index notifications_disabled_def VRING_USED_F_NO_NOTIFY_def
      idle_ring_def idle_ring_of_def at_kick_loads_def emit_def)

text \<open>
  C7 (amended): with \<^verbatim>\<open>avail_added_since_kick >= 2^15\<close>, \<^verbatim>\<open>notify()\<close> is called whenever event
  index is negotiated (whatever the event-index condition says) or the host's \<^verbatim>\<open>NO_NOTIFY\<close>
  flag is clear; without event index and with \<^verbatim>\<open>NO_NOTIFY\<close> set no kick happens. Every call
  of \<^verbatim>\<open>notify()\<close> is the last observable action of \<^verbatim>\<open>kick()\<close> and leaves
  \<^verbatim>\<open>avail_added_since_kick\<close> zero.
\<close>

theorem C7_forced_kick:
  "(2 ^ 15 \<le> avail_added_since_kick s
      \<and> (c_event_index (vconfig s) \<or> \<not> notifications_disabled (at_kick_loads h s))
      \<longrightarrow> kicks h s = 1)
   \<and> (\<not> c_event_index (vconfig s) \<and> notifications_disabled (at_kick_loads h s)
      \<longrightarrow> kicks h s = 0)
   \<and> (kicks h s \<noteq> 0 \<longrightarrow>
        trace (kick h s) = trace s @ [Fence, Notify] \<and> avail_added_since_kick (kick h s) = 0)"
proof (cases "c_event_index (vconfig s)")
  case True
  have big: "2 ^ 15 \<le> avail_added_since_kick s \<Longrightarrow> 32767 \<le> avail_added_since_kick s"
    by (erule order_trans [rotated]) simp
  show ?thesis
    using True big
    by (auto simp: kicks_event_index kick_unfold kick_notify_def emit_def
        force_kick_threshold_eq)
next
  case False
  then show ?thesis
    by (auto simp: kicks_no_event_index kick_unfold kick_notify_def emit_def)
qed

theorem C7_forced_kick_witness:
  "2 ^ 15 \<le> avail_added_since_kick
              ((idle_ring True)\<lparr>avail_added_since_kick := 40000\<rparr>) \<and>
   kicks [] ((idle_ring True)\<lparr>avail_added_since_kick := 40000\<rparr>) = 1 \<and>
   avail_added_since_kick (kick [] ((idle_ring True)\<lparr>avail_added_since_kick := 40000\<rparr>)) = 0 \<and>
   kicks [] ((idle_ring False)\<lparr>used_flags := 1, avail_added_since_kick := 40000\<rparr>) = 0"
  using C7_forced_kick [of "(idle_ring True)\<lparr>avail_added_since_kick := 40000\<rparr>" "[]"]
    C7_forced_kick [of "(idle_ring False)\<lparr>used_flags := 1, avail_added_since_kick := 40000\<rparr>" "[]"]
  by (simp add: idle_ring_def idle_ring_of_def notifications_disabled_def VRING_USED_F_NO_NOTIFY_def
      at_kick_loads_def emit_def)

section \<open>Facts about the options\<close>

lemma stored_event_index:
  "opt_count (stored_options get_virtio_net_options_description given) ''event-index'' = 1"
  by (simp add: opt_count_def stored_options_def get_virtio_net_options_description_def
      split: option.splits)

text \<open>
  C9: for every options map stored from the driver's own option description, where
  \<^verbatim>\<open>event-index\<close> always has a value, \<^verbatim>\<open>config_ring_size\<close> returns the value of
  \<^verbatim>\<open>virtio-ring-size\<close> (256 when the command line gives none), and the constructor of
  \<^verbatim>\<open>qp_vhost\<close> sizes both the receive and the transmit ring with it.
\<close>

theorem C9_config_ring_size:
  assumes "stored_options get_virtio_net_options_description given ''virtio-ring-size''
             = Some (Opt_unsigned n)"
  shows "config_ring_size (stored_options get_virtio_net_options_description given)
           = Inr (ucast n)
       \<and> qp_vhost_ring_sizes (stored_options get_virtio_net_options_description given)
           = Inr (ucast n, ucast n)
       \<and> c_size (rxq_config features rx_storage (ucast n)) = n
       \<and> c_size (txq_config features tx_storage (ucast n)) = n
       \<and> (given ''virtio-ring-size'' = None \<longrightarrow> n = 256)"
proof -
  have sz: "config_ring_size (stored_options get_virtio_net_options_description given)
           = Inr (ucast n)"
    using assms by (simp add: config_ring_size_def stored_event_index as_unsigned_def)
  have rt: "(ucast (ucast n :: u64) :: u32) = n"
    by (simp add: ucast_up_ucast_id is_up)
  have dflt: "given ''virtio-ring-size'' = None \<longrightarrow> n = 256"
    using assms
    by (auto simp: stored_options_def get_virtio_net_options_description_def)
  show ?thesis
    using sz rt dflt
    by (simp add: qp_vhost_ring_sizes_def txq_config_def rxq_config_def common_config_def Let_def)
qed

theorem C9_config_ring_size_witness:
  "config_ring_size (stored_options get_virtio_net_options_description
       [''virtio-ring-size'' \<mapsto> Opt_unsigned 1024, ''event-index'' \<mapsto> Opt_string ''off''])
     = Inr 1024
   \<and> config_ring_size (stored_options get_virtio_net_options_description Map.empty) = Inr 256"
  using C9_config_ring_size [of "[''virtio-ring-size'' \<mapsto> Opt_unsigned 1024,
                                   ''event-index'' \<mapsto> Opt_string ''off'']" 1024]
     C9_config_ring_size [of Map.empty 256]
  by (simp add: stored_options_def get_virtio_net_options_description_def)

section \<open>Facts about the layout of the ring storage\<close>

lemma align_up_aligned_base:
  "4096 dvd base \<Longrightarrow> align_up (base + x) 4096 = base + align_up x 4096"
proof -
  assume "4096 dvd base"
  then obtain k where k: "base = 4096 * k" ..
  have d: "(4096 * k + (x + 4095)) div 4096 = k + (x + 4095) div 4096"
    by (rule div_mult_self4) simp
  have e: "base + x + 4096 - 1 = 4096 * k + (x + 4095)"
    by (simp add: k)
  have f: "x + 4096 - 1 = x + 4095"
    by simp
  show ?thesis
    unfolding align_up_def e f d by (simp add: k add_mult_distrib)
qed

lemma div_4096_two_more:
  fixes a :: nat
  assumes "a mod 4 = 1"
  shows "(a + 2) div 4096 = a div 4096"
proof -
  define r where "r = a mod 4096"
  have "r mod 4 = a mod 4"
    unfolding r_def by (rule mod_mod_cancel) simp
  with assms have r4: "r mod 4 = 1" by simp
  have "r < 4096" by (simp add: r_def)
  with r4 have small: "r + 2 < 4096" by arith
  have "a + 2 = 4096 * (a div 4096) + (r + 2)"
    by (simp add: r_def)
  then have "(a + 2) div 4096 = (4096 * (a div 4096) + (r + 2)) div 4096"
    by simp
  also have "\<dots> = a div 4096 + (r + 2) div 4096"
    by (rule div_mult_self4) simp
  also have "\<dots> = a div 4096"
    using small by simp
  finally show ?thesis .
qed

lemma align_up_two_more:
  "align_up (16 * 2 ^ k + (2 * 2 ^ k + 6)) 4096 = align_up (16 * 2 ^ k + (6 + 2 ^ k * 2 + 2)) 4096"
proof (cases k)
  case 0
  then show ?thesis by (simp add: align_up_def)
next
  case (Suc j)
  define m :: nat where "m = 2 ^ j"
  have "(36 * m + 4101) mod 4 = 1"
    by presburger
  then have "(36 * m + 4101 + 2) div 4096 = (36 * m + 4101) div 4096"
    by (rule div_4096_two_more)
  then show ?thesis
    by (simp add: align_up_def Suc m_def)
qed

lemma unat_ring_size:
  fixes ring_size :: u64
  assumes "unat ring_size < 2 ^ 28"
  shows "unat (ucast ring_size :: u32) = unat ring_size"
    and "unat (16 * (ucast ring_size :: u32)) = 16 * unat ring_size"
    and "unat (2 * (ucast ring_size :: u32)) = 2 * unat ring_size"
proof -
  show a: "unat (ucast ring_size :: u32) = unat ring_size"
    using assms by (simp add: unsigned_ucast_eq take_bit_nat_eq_self)
  show "unat (16 * (ucast ring_size :: u32)) = 16 * unat ring_size"
    using assms a by (simp add: unat_word_ariths)
  show "unat (2 * (ucast ring_size :: u32)) = 2 * unat ring_size"
    using assms a by (simp add: unat_word_ariths)
qed


lemma unat_vring_storage_size:
  fixes ring_size :: u64
  assumes "unat ring_size < 2 ^ 28"
  shows "unat (vring_storage_size ring_size) = 3 * 4096 + unat ring_size * 26"
  using assms by (simp add: vring_storage_size_def unat_word_ariths)

text \<open>
  C8: for every ring size \<open>N\<close> that is a power of two up to 32768, and a page-aligned
  block, the descriptors are at offset 0 of the block, the available ring at offset
  \<open>16 * N\<close>, and the used region at offset \<open>align_up(avail_offset + avail_size, 4096)\<close>
  where \<open>avail_size = 6 + N*2 + 2\<close>; the code rounds \<open>avail_offset + 2 * N + 6\<close>, which
  is in the same page. The allocation per queue is \<open>3*4096 + N*26\<close> bytes, all zero.
\<close>

theorem C8_layout:
  fixes ring_size :: u64
  assumes "ring_size_ok (unat ring_size)" and "4096 dvd storage"
  shows "(\<forall>r \<in> {txq_config features storage ring_size, rxq_config features storage ring_size}.
            c_descs r = storage
          \<and> c_avail r = storage + 16 * unat ring_size
          \<and> c_used r = storage
               + align_up (16 * unat ring_size + (6 + unat ring_size * 2 + 2)) 4096
          \<and> c_used r = storage + align_up (16 * unat ring_size + (2 * unat ring_size + 6)) 4096)
       \<and> unat (vring_storage_size ring_size) = 3 * 4096 + unat ring_size * 26
       \<and> virtio_buffer (vring_storage_size ring_size)
            = replicate (3 * 4096 + unat ring_size * 26) 0"
proof -
  from assms(1) obtain k where k: "k \<le> 15" "unat ring_size = 2 ^ k"
    by (auto simp: ring_size_ok_def)
  have "(2 :: nat) ^ k \<le> 2 ^ 15"
    using k(1) by (rule power_increasing) simp
  with k(2) have small: "unat ring_size < 2 ^ 28"
    by simp
  note sz = unat_ring_size [OF small]
  have used: "align_up (storage + 16 * unat ring_size + 2 * unat ring_size + 6) 4096
      = storage + align_up (16 * unat ring_size + (2 * unat ring_size + 6)) 4096"
    using align_up_aligned_base [OF assms(2), of "16 * unat ring_size + (2 * unat ring_size + 6)"]
    by (simp add: add.assoc)
  have pow: "align_up (16 * unat ring_size + (2 * unat ring_size + 6)) 4096
        = align_up (16 * unat ring_size + (6 + unat ring_size * 2 + 2)) 4096"
    using align_up_two_more [of k] by (simp add: k(2))
  show ?thesis
    using used pow unat_vring_storage_size [OF small]
    by (simp add: txq_config_def rxq_config_def common_config_def Let_def sz virtio_buffer_def)
qed

theorem C8_layout_witness:
  "ring_size_ok (unat (256 :: u64))
   \<and> c_used (rxq_config 0 8192 256) = 8192 + 8192
   \<and> c_used (txq_config 0 8192 256) = 8192 + align_up (16 * 256 + (6 + 256 * 2 + 2)) 4096
   \<and> length (virtio_buffer (vring_storage_size 256)) = 18944"
proof -
  have "(256 :: nat) = 2 ^ 8" by simp
  then have a: "ring_size_ok (unat (256 :: u64))"
    unfolding ring_size_ok_def by (intro exI [of _ 8]) simp
  have b: "(4096 :: nat) dvd 8192" by simp
  show ?thesis
    using a C8_layout [OF a b, of 0]
    by (simp add: align_up_def)
qed

section \<open>Facts about the virtio-net header of a sent packet\<close>

text \<open>
  C6 (as stated): for every packet longer than \<open>mtu + eth_hdr_len\<close>, if the TSO or UFO
  feature of its protocol is on, the header gets the GSO fields. This fails when checksum
  offload is off: the whole computation is inside
  \<^verbatim>\<open>if (_dev._dev->hw_features().tx_csum_l4_offload)\<close>.
\<close>

theorem C6_gso_counterexample:
  "mtu (hw_with False True) + eth_hdr_len < packet_len (tcp_segment 9000) \<and>
   protocol (p_offload_info (tcp_segment 9000)) = Tcp \<and>
   tx_tso (hw_with False True) \<and>
   gso_type (txq_vhdr (hw_with False True) (tcp_segment 9000)) \<noteq> gso_tcpv4"
  by (simp add: txq_vhdr_def hw_with_def tcp_segment_def packet_len_def eth_hdr_len_def
      zero_vhdr_def gso_tcpv4_def)

text \<open>
  C6 (amended): for every packet longer than \<open>mtu + eth_hdr_len\<close>, if TX checksum offload is
  on and the TSO (TCP) or UFO (UDP) feature is on, \<^verbatim>\<open>txq::post\<close> sets \<open>gso_type\<close> to
  \<open>GSO_TCPv4\<close> or \<open>GSO_UDP\<close>, \<open>hdr_len = eth_hdr_len + ip_hdr_len + l4_hdr_len\<close> and
  \<open>gso_size = mtu - ip_hdr_len - l4_hdr_len\<close>, as 16-bit values; a 9000-byte TCP segment
  with TSO and checksum offload on and an MTU of 1500 gets \<open>needs_csum = 1\<close>,
  \<open>csum_start = 34\<close>, \<open>csum_offset = 16\<close>, \<open>gso_type = GSO_TCPv4\<close>, \<open>hdr_len = 54\<close> and
  \<open>gso_size = 1460\<close>.
\<close>

theorem C6_gso:
  assumes "tx_csum_l4_offload hw" and "mtu hw + eth_hdr_len < packet_len p"
  shows "(protocol (p_offload_info p) = Tcp \<and> tx_tso hw \<longrightarrow>
            gso_type (txq_vhdr hw p) = gso_tcpv4
          \<and> hdr_len (txq_vhdr hw p)
              = word_of_nat (eth_hdr_len + ip_hdr_len (p_offload_info p)
                                         + tcp_hdr_len (p_offload_info p))
          \<and> gso_size (txq_vhdr hw p)
              = word_of_int (int (mtu hw) - int (ip_hdr_len (p_offload_info p))
                                          - int (tcp_hdr_len (p_offload_info p))))
       \<and> (protocol (p_offload_info p) = Udp \<and> tx_ufo hw \<longrightarrow>
            gso_type (txq_vhdr hw p) = gso_udp
          \<and> hdr_len (txq_vhdr hw p)
              = word_of_nat (eth_hdr_len + ip_hdr_len (p_offload_info p)
                                         + udp_hdr_len (p_offload_info p))
          \<and> gso_size (txq_vhdr hw p)
              = word_of_int (int (mtu hw) - int (ip_hdr_len (p_offload_info p))
                                          - int (udp_hdr_len (p_offload_info p))))
       \<and> txq_vhdr (hw_with True True) (tcp_segment 9000)
           = \<lparr>needs_csum = True, flags_reserved = 0, gso_type = gso_tcpv4, hdr_len = 54,
              gso_size = 1460, csum_start = 34, csum_offset = 16, num_buffers = 0\<rparr>"
  using assms
  by (simp add: txq_vhdr_def Let_def hw_with_def tcp_segment_def packet_len_def eth_hdr_len_def
      zero_vhdr_def gso_tcpv4_def)

theorem C6_gso_witness:
  "tx_csum_l4_offload (hw_with True True) \<and>
   mtu (hw_with True True) + eth_hdr_len < packet_len (tcp_segment 9000) \<and>
   gso_type (txq_vhdr (hw_with True True) (tcp_segment 9000)) = gso_tcpv4 \<and>
   hdr_len (txq_vhdr (hw_with True True) (tcp_segment 9000)) = 54 \<and>
   gso_size (txq_vhdr (hw_with True True) (tcp_segment 9000)) = 1460"
proof -
  have a: "tx_csum_l4_offload (hw_with True True)"
    by (simp add: hw_with_def)
  have b: "mtu (hw_with True True) + eth_hdr_len < packet_len (tcp_segment 9000)"
    by (simp add: hw_with_def tcp_segment_def packet_len_def eth_hdr_len_def)
  show ?thesis
    using a b C6_gso [OF a b]
    by (simp add: hw_with_def tcp_segment_def eth_hdr_len_def)
qed

section \<open>Facts about receive reassembly\<close>

lemma rx_completed_first:
  assumes "remaining_buffers q = 0" and "1 \<le> num_buffers (hdr_at buf)"
  shows "rx_completed header_len hdr_at buf len q =
           Inr (rx_last_buffer
                  (q\<lparr>fragments := [\<lparr>f_base = buf + header_len,
                                    f_size = ucast len - header_len\<rparr>],
                     deleters := [buf],
                     remaining_buffers := ucast (num_buffers (hdr_at buf)) - 1\<rparr>))"
  using assms by (simp add: rx_completed_def rx_first_buffer_def)

lemma fragments_rx_last_buffer [simp]: "fragments (rx_last_buffer q) = fragments q"
  by (simp add: rx_last_buffer_def Let_def)

lemma unat_first_fragment:
  fixes len :: u32 and header_len :: u64
  assumes "header_len = sizeof_net_hdr \<or> header_len = sizeof_net_hdr_mrg"
  shows "unat (ucast len - header_len) =
           (if unat header_len \<le> unat len then unat len - unat header_len
            else 2 ^ 64 - (unat header_len - unat len))"
proof -
  have up: "unat (ucast len :: u64) = unat len"
    by (simp add: unsigned_ucast_eq take_bit_nat_eq_self
        order_less_trans [OF unsigned_less [of len]])
  have "unat header_len \<le> 12"
    using assms by (auto simp: sizeof_net_hdr_def sizeof_net_hdr_mrg_def)
  moreover have "unat len < 2 ^ 64"
    by (rule order_less_trans [OF unsigned_less]) simp
  ultimately show ?thesis
    by (auto simp: unat_sub_if_size up word_size)
qed

text \<open>
  C10: when a completion starts a new packet, the length of the first fragment is the
  \<^verbatim>\<open>size_t\<close> difference \<open>len - header_len\<close>. Nothing checks \<open>len >= header_len\<close>: the
  continuation succeeds for every \<open>len\<close>, the difference is the arithmetic one exactly when
  \<open>len >= header_len\<close>, and a smaller \<open>len\<close> wraps to a length of at least \<open>2^64 - 12\<close>.
\<close>

theorem C10_first_fragment_unguarded:
  assumes "remaining_buffers q = 0" and "1 \<le> num_buffers (hdr_at buf)"
    and "header_len = sizeof_net_hdr \<or> header_len = sizeof_net_hdr_mrg"
  shows "\<exists>q'. rx_completed header_len hdr_at buf len q = Inr q'
           \<and> fragments q' = [\<lparr>f_base = buf + header_len, f_size = ucast len - header_len\<rparr>]
           \<and> (unat header_len \<le> unat len \<longleftrightarrow>
                unat (f_size (hd (fragments q'))) + unat header_len = unat len)
           \<and> (unat len < unat header_len \<longrightarrow>
                unat (f_size (hd (fragments q'))) = 2 ^ 64 - (unat header_len - unat len)
                \<and> 2 ^ 64 - 12 \<le> unat (f_size (hd (fragments q'))))"
proof -
  have hl: "unat header_len \<le> 12"
    using assms(3) by (auto simp: sizeof_net_hdr_def sizeof_net_hdr_mrg_def)
  have sz: "unat (ucast len - header_len) =
           (if unat header_len \<le> unat len then unat len - unat header_len
            else 2 ^ 64 - (unat header_len - unat len))"
    by (rule unat_first_fragment [OF assms(3)])
  have len32: "unat len < 2 ^ 32"
    using unsigned_less [of len] by simp
  show ?thesis
    unfolding rx_completed_first [of q hdr_at buf, OF assms(1,2)]
    using hl len32 by (simp add: sz) arith
qed

theorem C10_first_fragment_unguarded_witness:
  "remaining_buffers idle_rxq = 0 \<and>
   (\<exists>q'. rx_completed sizeof_net_hdr_mrg (\<lambda>_. zero_vhdr\<lparr>num_buffers := 1\<rparr>) 4096 5 idle_rxq
            = Inr q'
        \<and> f_base (hd (fragments q')) = 4108
        \<and> unat (f_size (hd (fragments q'))) = 18446744073709551609)"
proof -
  have a: "remaining_buffers idle_rxq = 0"
    by (simp add: idle_rxq_def)
  have b: "1 \<le> num_buffers ((\<lambda>_. zero_vhdr\<lparr>num_buffers := 1\<rparr>) (4096 :: u64))"
    by (simp add: zero_vhdr_def)
  have c: "sizeof_net_hdr_mrg = sizeof_net_hdr \<or> sizeof_net_hdr_mrg = sizeof_net_hdr_mrg"
    by simp
  show ?thesis
    using a C10_first_fragment_unguarded
        [of idle_rxq "\<lambda>_. zero_vhdr\<lparr>num_buffers := 1\<rparr>" 4096 sizeof_net_hdr_mrg 5, OF a b c]
    by (auto simp: sizeof_net_hdr_mrg_def)
qed

lemma single_deleter: "(if length d = 1 then [d ! 0] else d) = d"
  by (cases d) auto

lemma rx_last_buffer_deliver:
  "remaining_buffers q = 0 \<Longrightarrow>
   rx_last_buffer q =
     q\<lparr>deleters := [],
       l2received := l2received q @ [\<lparr>p_frags = fragments q, p_offload_info = rx_offload_info,
                                       p_owned = deleters q\<rparr>],
       rx_ring := (rx_ring q)\<lparr>available_descriptors :=
                     available_descriptors (rx_ring q) + length (fragments q)\<rparr>\<rparr>"
  by (cases "deleters q") (auto simp: rx_last_buffer_def Let_def)

lemma rx_last_buffer_pending:
  "remaining_buffers q \<noteq> 0 \<Longrightarrow> rx_last_buffer q = q"
  by (simp add: rx_last_buffer_def)

lemma rx_completed_next:
  assumes "remaining_buffers q \<noteq> 0"
  shows "rx_completed header_len hdr_at buf len q =
           Inr (rx_last_buffer
                  (q\<lparr>fragments := fragments q @ [whole_fragment (buf, len)],
                     deleters := deleters q @ [buf],
                     remaining_buffers := remaining_buffers q - 1\<rparr>))"
  using assms by (simp add: rx_completed_def rx_first_buffer_def whole_fragment_def)

lemma rx_completions_rest:
  assumes "unat (remaining_buffers q) = length rest" and "rest \<noteq> []"
  shows "rx_completions header_len hdr_at rest q =
           Inr (rx_last_buffer
                  (q\<lparr>fragments := fragments q @ map whole_fragment rest,
                     deleters := deleters q @ map fst rest,
                     remaining_buffers := 0\<rparr>))"
  using assms
proof (induction rest arbitrary: q)
  case Nil
  then show ?case by simp
next
  case (Cons c rest)
  obtain buf len where c: "c = (buf, len)" by (cases c)
  from Cons.prems have ne: "remaining_buffers q \<noteq> 0"
    by (auto simp: unat_eq_0 [symmetric] simp del: unat_eq_0)
  have dec: "unat (remaining_buffers q - 1) = length rest"
    using Cons.prems ne by (simp add: unat_minus_one)
  show ?case
  proof (cases rest)
    case Nil
    with dec have "remaining_buffers q - 1 = 0"
      by (simp add: unat_eq_0)
    then show ?thesis
      by (simp add: c Nil rx_completed_next [OF ne])
  next
    case (Cons c' rest')
    with dec have pending: "remaining_buffers q - 1 \<noteq> 0"
      by (auto simp: unat_eq_0 [symmetric] simp del: unat_eq_0)
    let ?q1 = "q\<lparr>fragments := fragments q @ [whole_fragment (buf, len)],
                  deleters := deleters q @ [buf],
                  remaining_buffers := remaining_buffers q - 1\<rparr>"
    have step: "rx_completed header_len hdr_at buf len q = Inr ?q1"
      using pending by (simp add: rx_completed_next [OF ne] rx_last_buffer_pending)
    have "rx_completions header_len hdr_at rest ?q1 =
            Inr (rx_last_buffer
                   (?q1\<lparr>fragments := fragments ?q1 @ map whole_fragment rest,
                         deleters := deleters ?q1 @ map fst rest,
                         remaining_buffers := 0\<rparr>))"
      by (rule Cons.IH) (simp_all add: dec Cons)
    then show ?thesis
      by (simp add: c step)
  qed
qed

lemma rx_completions_packet:
  assumes idle: "remaining_buffers q = 0"
    and nb: "num_buffers (hdr_at buf1) = word_of_nat (Suc (length rest))"
    and m: "Suc (length rest) < 2 ^ 16"
  shows "rx_completions header_len hdr_at ((buf1, len1) # rest) q =
           Inr (q\<lparr>fragments := \<lparr>f_base = buf1 + header_len, f_size = ucast len1 - header_len\<rparr>
                                  # map whole_fragment rest,
                   remaining_buffers := 0,
                   deleters := [],
                   l2received := l2received q @
                     [\<lparr>p_frags = \<lparr>f_base = buf1 + header_len, f_size = ucast len1 - header_len\<rparr>
                                  # map whole_fragment rest,
                       p_offload_info = rx_offload_info,
                       p_owned = buf1 # map fst rest\<rparr>],
                   rx_ring := (rx_ring q)\<lparr>available_descriptors :=
                                 available_descriptors (rx_ring q) + Suc (length rest)\<rparr>\<rparr>)"
proof -
  have un: "unat (num_buffers (hdr_at buf1)) = Suc (length rest)"
    using m by (simp add: nb unat_of_nat del: of_nat_Suc)
  then have ge: "1 \<le> num_buffers (hdr_at buf1)"
    by (simp add: word_le_nat_alt)
  have up: "unat (ucast (num_buffers (hdr_at buf1)) :: u32) = Suc (length rest)"
    using un m by (simp add: unsigned_ucast_eq take_bit_nat_eq_self)
  then have nz: "(ucast (num_buffers (hdr_at buf1)) :: u32) \<noteq> 0"
    by (auto simp: unat_eq_0 [symmetric] simp del: unat_eq_0)
  have dec: "unat ((ucast (num_buffers (hdr_at buf1)) :: u32) - 1) = length rest"
    using up nz by (simp add: unat_minus_one)
  let ?q1 = "q\<lparr>fragments := [\<lparr>f_base = buf1 + header_len, f_size = ucast len1 - header_len\<rparr>],
                deleters := [buf1],
                remaining_buffers := ucast (num_buffers (hdr_at buf1)) - 1\<rparr>"
  have first: "rx_completed header_len hdr_at buf1 len1 q = Inr (rx_last_buffer ?q1)"
    by (rule rx_completed_first [of q hdr_at buf1, OF idle ge])
  show ?thesis
  proof (cases rest)
    case Nil
    with dec have "(ucast (num_buffers (hdr_at buf1)) :: u32) - 1 = 0"
      by (simp add: unat_eq_0)
    then show ?thesis
      by (simp add: first Nil rx_last_buffer_deliver)
  next
    case (Cons c rest')
    with dec have pending: "(ucast (num_buffers (hdr_at buf1)) :: u32) - 1 \<noteq> 0"
      by (auto simp: unat_eq_0 [symmetric] simp del: unat_eq_0)
    have "rx_completions header_len hdr_at rest ?q1 =
            Inr (rx_last_buffer
                   (?q1\<lparr>fragments := fragments ?q1 @ map whole_fragment rest,
                         deleters := deleters ?q1 @ map fst rest,
                         remaining_buffers := 0\<rparr>))"
      by (rule rx_completions_rest) (simp_all add: dec Cons)
    then show ?thesis
      using pending by (simp add: first rx_last_buffer_pending rx_last_buffer_deliver)
  qed
qed

lemma sum_whole_fragments:
  "sum_list (map (\<lambda>c. f_size (whole_fragment c)) rest)
     = sum_list (map (\<lambda>c. ucast (snd c)) rest)"
  by (induction rest) (simp_all add: whole_fragment_def)

lemma len_whole_fragments:
  "sum_list (map (\<lambda>c. unat (f_size (whole_fragment c))) rest)
     = sum_list (map (\<lambda>c. unat (snd c)) rest)"
proof (induction rest)
  case Nil
  show ?case by simp
next
  case (Cons c rest)
  have "unat (ucast (snd c) :: u64) = unat (snd c)"
    by (simp add: unsigned_ucast_eq take_bit_nat_eq_self
        order_less_trans [OF unsigned_less [of "snd c"]])
  with Cons show ?case by (simp add: whole_fragment_def)
qed

lemma unat_first_fragment_fits:
  fixes len :: u32 and header_len :: u64
  assumes "unat header_len \<le> unat len"
  shows "unat (ucast len - header_len) + unat header_len = unat len"
proof -
  have up: "unat (ucast len :: u64) = unat len"
    by (simp add: unsigned_ucast_eq take_bit_nat_eq_self
        order_less_trans [OF unsigned_less [of len]])
  show ?thesis
    using assms by (simp add: unat_sub_if_size up)
qed

text \<open>
  C4: when the receive queue is between packets and the host completes \<open>M\<close> posted
  buffers, the first with \<open>num_buffers = M\<close> in its header, the queue gives exactly one
  packet to \<^verbatim>\<open>l2receive\<close>. Its fragments are \<open>{buf_1 + header_len, len_1 - header_len}\<close>
  followed by \<open>{buf_i, len_i}\<close>; its deleter owns each of the \<open>M\<close> buffers once and
  \<^verbatim>\<open>_deleters\<close> keeps none; \<open>M\<close> permits go back to the semaphore. The total length is
  \<open>sum(len_i) - header_len\<close> in \<^verbatim>\<open>size_t\<close> arithmetic, and as a number whenever
  \<open>len_1 >= header_len\<close>.
\<close>

theorem C4_mergeable_receive:
  assumes "remaining_buffers q = 0"
    and "num_buffers (hdr_at buf1) = word_of_nat (Suc (length rest))"
    and "Suc (length rest) < 2 ^ 16"
  shows "\<exists>q'. rx_completions header_len hdr_at ((buf1, len1) # rest) q = Inr q'
     \<and> l2received q' = l2received q @
           [\<lparr>p_frags = \<lparr>f_base = buf1 + header_len, f_size = ucast len1 - header_len\<rparr>
                        # map whole_fragment rest,
             p_offload_info = rx_offload_info,
             p_owned = buf1 # map fst rest\<rparr>]
     \<and> deleters q' = [] \<and> remaining_buffers q' = 0
     \<and> available_descriptors (rx_ring q')
           = available_descriptors (rx_ring q) + Suc (length rest)
     \<and> sum_list (map f_size (p_frags (last (l2received q'))))
           = ucast len1 + sum_list (map (\<lambda>c. ucast (snd c)) rest) - header_len
     \<and> (unat header_len \<le> unat len1 \<longrightarrow>
           packet_len (last (l2received q')) + unat header_len
             = unat len1 + sum_list (map (\<lambda>c. unat (snd c)) rest))"
proof -
  have fits: "unat header_len \<le> unat len1 \<Longrightarrow>
      unat (ucast len1 - header_len) + unat header_len = unat len1"
    by (rule unat_first_fragment_fits)
  show ?thesis
    unfolding rx_completions_packet [of q hdr_at buf1 rest, OF assms]
    using fits
    by (simp add: packet_len_def comp_def sum_whole_fragments len_whole_fragments)
qed

theorem C4_mergeable_receive_witness:
  "remaining_buffers idle_rxq = 0 \<and>
   (\<exists>q'. rx_completions sizeof_net_hdr_mrg (\<lambda>_. zero_vhdr\<lparr>num_buffers := 2\<rparr>)
            [(8192, 4096), (12288, 2048)] idle_rxq = Inr q'
        \<and> l2received q' =
             [\<lparr>p_frags = [\<lparr>f_base = 8204, f_size = 4084\<rparr>, \<lparr>f_base = 12288, f_size = 2048\<rparr>],
               p_offload_info = rx_offload_info, p_owned = [8192, 12288]\<rparr>]
        \<and> available_descriptors (rx_ring q') = 6
        \<and> packet_len (last (l2received q')) = 6132)"
proof -
  have a: "remaining_buffers idle_rxq = 0"
    by (simp add: idle_rxq_def)
  have b: "num_buffers ((\<lambda>_. zero_vhdr\<lparr>num_buffers := 2\<rparr>) (8192 :: u64))
             = word_of_nat (Suc (length [(12288 :: u64, 2048 :: u32)]))"
    by (simp add: zero_vhdr_def)
  have c: "Suc (length [(12288 :: u64, 2048 :: u32)]) < 2 ^ 16"
    by simp
  show ?thesis
    using a C4_mergeable_receive
        [of idle_rxq "\<lambda>_. zero_vhdr\<lparr>num_buffers := 2\<rparr>" 8192 "[(12288, 2048)]"
            sizeof_net_hdr_mrg 4096, OF a b c]
    by (auto simp: sizeof_net_hdr_mrg_def whole_fragment_def idle_rxq_def idle_ring_of_def)
qed

section \<open>Facts about completion\<close>

lemma host_step_frame [simp]:
  "poll_mode (host_step a s) = poll_mode s"
  "used_tail (host_step a s) = used_tail s"
  "used_event (host_step a s) = used_event s"
  "avail_flags (host_step a s) = avail_flags s"
  by (cases a; simp)+

lemma host_steps_frame [simp]:
  "poll_mode (host_steps h s) = poll_mode s"
  "used_tail (host_steps h s) = used_tail s"
  "used_event (host_steps h s) = used_event s"
  "avail_flags (host_steps h s) = avail_flags s"
  by (induction h arbitrary: s; simp)+













section \<open>The ring invariant\<close>

lemma ring_size_ok_bounds: "ring_size_ok n \<Longrightarrow> 0 < n \<and> n \<le> 32768"
proof -
  assume "ring_size_ok n"
  then obtain k where k: "k \<le> 15" "n = 2 ^ k"
    by (auto simp: ring_size_ok_def)
  have "(2 :: nat) ^ k \<le> 2 ^ 15"
    using k(1) by (rule power_increasing) simp
  with k show ?thesis by simp
qed

lemma set_outstanding:
  "set (outstanding s) = {i. i < length (completions s) \<and> completions s ! i \<noteq> None}"
  by (auto simp: outstanding_def)

lemma distinct_outstanding [simp]: "distinct (outstanding s)"
  by (simp add: outstanding_def)

text \<open>What the partition says about single descriptors.\<close>

lemma one_of_four:
  fixes a b c d :: nat
  assumes "a + b + c + d = (if P then 1 else 0)"
  shows "a \<le> 1" and "b \<le> 1" and "c \<le> 1" and "d \<le> 1"
    and "0 < a \<Longrightarrow> P \<and> b = 0 \<and> c = 0 \<and> d = 0"
    and "0 < b \<Longrightarrow> P \<and> a = 0 \<and> c = 0 \<and> d = 0"
    and "0 < c \<Longrightarrow> P \<and> a = 0 \<and> b = 0 \<and> d = 0"
    and "0 < d \<Longrightarrow> P"
  using assms by (cases P; simp)+

lemma partition_count:
  fixes n :: nat
  assumes "A + B + (\<Sum>h \<in> H. mset (ch h)) = mset_set {0..<n}" and "finite H"
  shows "count A x + count B x + (\<Sum>h \<in> H. count (mset (ch h)) x) = (if x < n then 1 else 0)"
proof -
  have "count (A + B + (\<Sum>h \<in> H. mset (ch h))) x = count (mset_set {0..<n}) x"
    by (simp only: assms(1))
  moreover have "count (mset_set {0..<n}) x = (if x < n then 1 else 0)"
    by (simp add: count_mset_set')
  ultimately show ?thesis
    by (simp only: count_sum count_union)
qed

lemma partition_chain_count:
  fixes n :: nat
  assumes "A + B + (\<Sum>h \<in> H. mset (ch h)) = mset_set {0..<n}" and "finite H" and "h \<in> H"
  shows "count A x + count B x + count (mset (ch h)) x
           + (\<Sum>h' \<in> H - {h}. count (mset (ch h')) x) = (if x < n then 1 else 0)"
proof -
  have "(\<Sum>h \<in> H. count (mset (ch h)) x)
          = count (mset (ch h)) x + (\<Sum>h' \<in> H - {h}. count (mset (ch h')) x)"
    by (rule sum.remove [OF assms(2,3)])
  with partition_count [OF assms(1,2), of x] show ?thesis
    by (simp only: add.assoc)
qed

lemma distinct_if_count_le:
  assumes "\<And>x. count (mset xs) x \<le> 1"
  shows "distinct xs"
  unfolding distinct_count_atmost_1
proof (intro allI)
  fix x
  show "count (mset xs) x = (if x \<in> set xs then 1 else 0)"
  proof (cases "x \<in> set xs")
    case True
    then have "0 < count (mset xs) x" by (rule count_mset_gt_0)
    with assms [of x] have "count (mset xs) x = 1" by linarith
    with True show ?thesis by simp
  next
    case False
    then show ?thesis by simp
  qed
qed

text \<open>
  The descriptors of the free list, of the chain being built and of an outstanding chain
  are distinct, in the table, and in no other of these lists.
\<close>

lemma ring_inv_chain:
  assumes "ring_inv s fl ch cur" and "h \<in> set (outstanding s)"
  shows "distinct (ch h)" and "set (ch h) \<subseteq> {0..<length (descs s)}"
    and "set (ch h) \<inter> set fl = {}" and "set (ch h) \<inter> set cur = {}"
    and "\<forall>h' \<in> set (outstanding s). h' \<noteq> h \<longrightarrow> set (ch h) \<inter> set (ch h') = {}"
    and "is_chain (descs s) (ch h)" and "hd (ch h) = h" and "ch h \<noteq> []"
proof -
  let ?H = "set (outstanding s)"
  from assms have part: "mset fl + mset cur + (\<Sum>h \<in> ?H. mset (ch h))
      = mset_set {0..<length (descs s)}"
    by (simp add: ring_inv_def)
  have c: "count (mset fl) x + count (mset cur) x + count (mset (ch h)) x
           + (\<Sum>h' \<in> ?H - {h}. count (mset (ch h')) x) = (if x < length (descs s) then 1 else 0)"
    for x
    by (rule partition_chain_count [OF part _ assms(2)]) simp
  show "distinct (ch h)"
    by (rule distinct_if_count_le) (rule one_of_four(3) [OF c])
  show "set (ch h) \<subseteq> {0..<length (descs s)}"
  proof
    fix x assume "x \<in> set (ch h)"
    then have "0 < count (mset (ch h)) x" by (rule count_mset_gt_0)
    from one_of_four(7) [OF c this] show "x \<in> {0..<length (descs s)}" by simp
  qed
  show "set (ch h) \<inter> set fl = {}"
  proof (rule ccontr)
    assume "set (ch h) \<inter> set fl \<noteq> {}"
    then obtain x where x: "x \<in> set fl" "x \<in> set (ch h)" by auto
    from one_of_four(7) [OF c count_mset_gt_0 [OF x(2)]] count_mset_gt_0 [OF x(1)]
    show False by linarith
  qed
  show "set (ch h) \<inter> set cur = {}"
  proof (rule ccontr)
    assume "set (ch h) \<inter> set cur \<noteq> {}"
    then obtain x where x: "x \<in> set cur" "x \<in> set (ch h)" by auto
    from one_of_four(7) [OF c count_mset_gt_0 [OF x(2)]] count_mset_gt_0 [OF x(1)]
    show False by linarith
  qed
  show "\<forall>h' \<in> ?H. h' \<noteq> h \<longrightarrow> set (ch h) \<inter> set (ch h') = {}"
  proof (intro ballI impI, rule ccontr)
    fix h' assume h': "h' \<in> ?H" "h' \<noteq> h" and "set (ch h) \<inter> set (ch h') \<noteq> {}"
    then obtain x where x: "x \<in> set (ch h)" "x \<in> set (ch h')" by auto
    have "count (mset (ch h')) x \<le> (\<Sum>h' \<in> ?H - {h}. count (mset (ch h')) x)"
      by (rule member_le_sum) (use h' in auto)
    with one_of_four(7) [OF c count_mset_gt_0 [OF x(1)]] count_mset_gt_0 [OF x(2)]
    show False by linarith
  qed
  from assms show "is_chain (descs s) (ch h)" "hd (ch h) = h"
    by (simp_all add: ring_inv_def)
  then show "ch h \<noteq> []"
    by (cases "ch h") simp_all
qed

lemma ring_inv_free:
  assumes "ring_inv s fl ch cur"
  shows "distinct fl" and "set fl \<subseteq> {0..<length (descs s)}" and "set fl \<inter> set cur = {}"
    and "distinct cur" and "set cur \<subseteq> {0..<length (descs s)}"
proof -
  let ?H = "set (outstanding s)"
  from assms have part: "mset fl + mset cur + (\<Sum>h \<in> ?H. mset (ch h))
      = mset_set {0..<length (descs s)}"
    by (simp add: ring_inv_def)
  have c: "count (mset fl) x + count (mset cur) x + 0
           + (\<Sum>h' \<in> ?H. count (mset (ch h')) x) = (if x < length (descs s) then 1 else 0)"
    for x
    using partition_count [OF part, of x] by simp
  show "distinct fl"
    by (rule distinct_if_count_le) (rule one_of_four(1) [OF c])
  show "distinct cur"
    by (rule distinct_if_count_le) (rule one_of_four(2) [OF c])
  show "set fl \<subseteq> {0..<length (descs s)}"
  proof
    fix x assume "x \<in> set fl"
    then have "0 < count (mset fl) x" by (rule count_mset_gt_0)
    from one_of_four(5) [OF c this] show "x \<in> {0..<length (descs s)}" by simp
  qed
  show "set cur \<subseteq> {0..<length (descs s)}"
  proof
    fix x assume "x \<in> set cur"
    then have "0 < count (mset cur) x" by (rule count_mset_gt_0)
    from one_of_four(6) [OF c this] show "x \<in> {0..<length (descs s)}" by simp
  qed
  show "set fl \<inter> set cur = {}"
  proof (rule ccontr)
    assume "set fl \<inter> set cur \<noteq> {}"
    then obtain x where x: "x \<in> set fl" "x \<in> set cur" by auto
    from one_of_four(5) [OF c count_mset_gt_0 [OF x(1)]] count_mset_gt_0 [OF x(2)]
    show False by linarith
  qed
qed

lemma length_le_table:
  assumes "distinct xs" and "set xs \<subseteq> {0..<n}"
  shows "length xs \<le> n"
proof -
  have "card (set xs) \<le> card {0..<n}"
    by (rule card_mono) (use assms(2) in auto)
  with assms(1) show ?thesis
    by (simp add: distinct_card)
qed

lemma free_walk_linked:
  assumes "linked ds fl" and "distinct fl" and "fl \<noteq> []" and "set fl \<subseteq> {0..<length ds}"
    and "length fl \<le> n"
  shows "free_walk n ds (int (hd fl)) (int (last fl)) = fl"
  using assms
proof (induction fl arbitrary: n rule: linked.induct)
  case (1 ds)
  then show ?case by simp
next
  case (2 ds x)
  then obtain m where "n = Suc m" by (cases n) auto
  with 2 show ?case by simp
next
  case (3 ds x y ys)
  then obtain m where n: "n = Suc m" by (cases n) auto
  from "3.prems" have ne: "int x \<noteq> int (last (y # ys))"
    by (metis distinct.simps(2) last_in_set list.distinct(1) of_nat_eq_iff)
  from "3.prems"(1) have "unat (d_next (ds ! x)) = y" by simp
  then have nxt: "uint (d_next (ds ! x)) = int y"
    by (simp only: uint_nat)
  have "free_walk m ds (int (hd (y # ys))) (int (last (y # ys))) = y # ys"
    by (rule "3.IH") (use "3.prems" n in auto)
  with "3.prems" ne nxt n show ?case
    by simp
qed

lemma chain_walk_chain:
  assumes "is_chain ds c" and "set c \<subseteq> {0..<length ds}" and "length c \<le> n"
  shows "chain_walk n ds (hd c) = c"
  using assms
proof (induction c arbitrary: n rule: is_chain.induct)
  case (1 ds)
  then show ?case by simp
next
  case (2 ds x)
  then obtain m where "n = Suc m" by (cases n) auto
  with 2 show ?case by simp
next
  case (3 ds x y ys)
  then obtain m where n: "n = Suc m" by (cases n) auto
  have "chain_walk m ds (hd (y # ys)) = y # ys"
    by (rule "3.IH") (use "3.prems" n in auto)
  with "3.prems" n show ?case
    by simp
qed

text \<open>Under the invariant the walks of the observers find the lists of the invariant.\<close>

lemma ring_inv_free_list:
  assumes "ring_inv s fl ch cur"
  shows "free_list s = fl"
proof (cases "fl = []")
  case True
  with assms show ?thesis
    by (simp add: ring_inv_def free_ends_def free_list_def)
next
  case False
  with assms have ends: "free_head s = int (hd fl)" "free_last s = int (last fl)"
    and l: "linked (descs s) fl"
    by (simp_all add: ring_inv_def free_ends_def)
  note f = ring_inv_free [OF assms]
  have "free_walk (length (descs s)) (descs s) (int (hd fl)) (int (last fl)) = fl"
    by (rule free_walk_linked [OF l f(1) False f(2) length_le_table [OF f(1,2)]])
  with ends show ?thesis
    by (simp add: free_list_def)
qed

lemma ring_inv_chain_of:
  assumes "ring_inv s fl ch cur" and "h \<in> set (outstanding s)"
  shows "chain_of s h = ch h"
proof -
  note c = ring_inv_chain [OF assms]
  have "chain_walk (length (descs s)) (descs s) (hd (ch h)) = ch h"
    by (rule chain_walk_chain [OF c(6) c(2) length_le_table [OF c(1,2)]])
  with c(7) show ?thesis
    by (simp add: chain_of_def)
qed

lemma ring_inv_count:
  assumes "ring_inv s fl ch []"
  shows "free_count s + outstanding_count s = unat (c_size (vconfig s))"
proof -
  let ?H = "set (outstanding s)"
  from assms have part: "mset fl + mset [] + (\<Sum>h \<in> ?H. mset (ch h))
      = mset_set {0..<length (descs s)}"
    and sz: "unat (c_size (vconfig s)) = length (descs s)"
    by (simp_all add: ring_inv_def)
  have "size (mset fl + mset [] + (\<Sum>h \<in> ?H. mset (ch h)))
          = size (mset_set {0..<length (descs s)})"
    by (simp only: part)
  then have total: "length fl + (\<Sum>h \<in> ?H. length (ch h)) = length (descs s)"
    by simp
  have "outstanding_count s = (\<Sum>h \<in> ?H. length (chain_of s h))"
    by (simp add: outstanding_count_def sum_list_distinct_conv_sum_set)
  also have "\<dots> = (\<Sum>h \<in> ?H. length (ch h))"
    by (rule sum.cong) (simp_all add: ring_inv_chain_of [OF assms])
  finally have "outstanding_count s = (\<Sum>h \<in> ?H. length (ch h))" .
  with total sz ring_inv_free_list [OF assms] show ?thesis
    by (simp add: free_count_def)
qed

section \<open>Construction establishes the invariant\<close>

lemma setup_descs_result:
  "i + n \<le> length ds \<Longrightarrow>
   \<exists>ds'. setup_descs i n ds = Inr ds' \<and> length ds' = length ds
        \<and> (\<forall>j < length ds. ds' ! j = (if i \<le> j \<and> j < i + n
                                         then (ds ! j)\<lparr>d_next := word_of_nat (j + 1)\<rparr>
                                         else ds ! j))"
proof (induction n arbitrary: i ds)
  case 0
  then show ?case by auto
next
  case (Suc n)
  let ?ds = "ds[i := (ds ! i)\<lparr>d_next := word_of_nat (i + 1)\<rparr>]"
  from Suc.prems have "Suc i + n \<le> length ?ds" by simp
  from Suc.IH [OF this] obtain ds' where
    r: "setup_descs (Suc i) n ?ds = Inr ds'" "length ds' = length ds"
    and c: "\<forall>j < length ds. ds' ! j = (if Suc i \<le> j \<and> j < Suc i + n
                                         then (?ds ! j)\<lparr>d_next := word_of_nat (j + 1)\<rparr>
                                         else ?ds ! j)"
    by auto
  have "\<forall>j < length ds. ds' ! j = (if i \<le> j \<and> j < i + Suc n
                                     then (ds ! j)\<lparr>d_next := word_of_nat (j + 1)\<rparr>
                                     else ds ! j)"
  proof (intro allI impI)
    fix j assume j: "j < length ds"
    show "ds' ! j = (if i \<le> j \<and> j < i + Suc n
                     then (ds ! j)\<lparr>d_next := word_of_nat (j + 1)\<rparr> else ds ! j)"
    proof (cases "j = i")
      case True
      with c j show ?thesis by simp
    next
      case False
      then have "(Suc i \<le> j) = (i \<le> j)" by auto
      with c j False show ?thesis by simp
    qed
  qed
  with r Suc.prems show ?case
    by simp
qed

lemma linked_upt:
  "(\<forall>j. i \<le> j \<and> Suc j < n \<longrightarrow> unat (d_next (ds ! j)) = Suc j) \<Longrightarrow> linked ds [i..<n]"
proof (induction "n - i" arbitrary: i)
  case 0
  then show ?case by simp
next
  case (Suc k)
  then have i: "i < n" by simp
  show ?case
  proof (cases "Suc i < n")
    case False
    with i have "[i..<n] = [i]" by (simp add: upt_conv_Cons)
    then show ?thesis by simp
  next
    case True
    have rest: "linked ds [Suc i..<n]"
      by (rule Suc.hyps(1)) (use Suc.hyps(2) Suc.prems in auto)
    have "[i..<n] = i # Suc i # [Suc (Suc i)..<n]"
      using i True by (simp add: upt_conv_Cons)
    moreover have "[Suc i..<n] = Suc i # [Suc (Suc i)..<n]"
      using True by (simp add: upt_conv_Cons)
    ultimately show ?thesis
      using rest Suc.prems i True by simp
  qed
qed

lemma sint_small:
  fixes w :: u32
  assumes "unat w < 2 ^ 31"
  shows "sint w = int (unat w)"
proof -
  have "int (unat w) < int (2 ^ 31)"
    using assms by (simp only: of_nat_less_iff)
  then have hi: "uint w < 2 ^ 31"
    by simp
  have "(0 :: int) \<le> uint w" by simp
  moreover have "- (2 ^ 31) \<le> (0 :: int)" by simp
  ultimately have lo: "- (2 ^ 31) \<le> uint w" by (rule order_trans [rotated])
  have "signed_take_bit 31 (uint w) = uint w"
    using lo hi by (rule signed_take_bit_int_eq_self)
  then show ?thesis
    by (simp add: sint_uint)
qed

lemma outstanding_none:
  "\<forall>i < length (completions s). completions s ! i = None \<Longrightarrow> outstanding s = []"
  by (simp add: outstanding_def filter_empty_conv)

lemma vring_ctor_inv:
  assumes ok: "ring_size_ok (unat (c_size conf))"
  shows "\<exists>s. vring_ctor conf pm = Inr s
           \<and> ring_inv s [0..<unat (c_size conf)] ch []
           \<and> free_head s = 0 \<and> free_last s = int (unat (c_size conf)) - 1
           \<and> available_descriptors s = unat (c_size conf)
           \<and> (\<forall>i < unat (c_size conf). unat (d_next (descs s ! i)) = i + 1)
           \<and> vconfig s = conf \<and> poll_mode s = pm"
proof -
  let ?n = "unat (c_size conf)"
  from ring_size_ok_bounds [OF ok] have n: "0 < ?n" "?n \<le> 32768" by simp_all
  from setup_descs_result [of 0 ?n "replicate ?n zero_desc"] obtain ds where
    ds: "setup_descs 0 ?n (replicate ?n zero_desc) = Inr ds" "length ds = ?n"
    and c: "\<forall>j < ?n. ds ! j = (replicate ?n zero_desc ! j)\<lparr>d_next := word_of_nat (j + 1)\<rparr>"
    by auto
  have nxt: "unat (d_next (ds ! j)) = j + 1" if "j < ?n" for j
  proof -
    have "j + 1 < 2 ^ 16" using that n by simp
    then have "unat (word_of_nat (j + 1) :: u16) = j + 1"
      by (simp add: unat_of_nat del: of_nat_Suc of_nat_add)
    with c that show ?thesis by simp
  qed
  have nz: "c_size conf \<noteq> 0"
    using n(1) by (auto simp: unat_eq_0 [symmetric] simp del: unat_eq_0)
  have "unat (c_size conf - 1) = ?n - 1"
    using nz by (simp add: unat_minus_one)
  moreover from this n have "unat (c_size conf - 1) < 2 ^ 31" by simp
  ultimately have lst: "sint (c_size conf - 1) = int ?n - 1"
    using n(1) by (simp add: sint_small of_nat_diff)
  define s where "s = \<lparr>vconfig = conf,
            completions = replicate ?n None,
            descs = ds,
            avail_flags = 0, avail_idx = 0,
            avail_ring = replicate ?n 0, used_event = 0,
            used_flags = 0, used_idx = 0,
            used_elements = replicate ?n \<lparr>ue_id = 0, ue_len = 0\<rparr>,
            avail_event = 0,
            avail_head = 0, avail_added_since_kick = 0, used_tail = 0,
            available_descriptors = ?n, free_head = 0, free_last = int ?n - 1, batch = [],
            poll_mode = pm, ready = ([] :: ('a \<times> u32) list), trace = []\<rparr>"
  have ctor: "vring_ctor conf pm = Inr s"
    by (simp add: vring_ctor_def vring_setup_def ds lst s_def)
  have out: "outstanding s = []"
    by (rule outstanding_none) (simp add: s_def)
  have pend: "pending_ids s = []"
    by (simp add: pending_ids_def s_def)
  have lk: "linked (descs s) [0..<?n]"
    by (rule linked_upt) (simp add: s_def nxt)
  have ends: "free_ends s [0..<?n]"
    using n(1) by (simp add: free_ends_def s_def hd_upt last_upt of_nat_diff)
  have "ring_inv s [0..<?n] ch []"
    using ok lk ends by (simp add: ring_inv_def out pend) (simp add: s_def ds)
  moreover have "\<forall>i < ?n. unat (d_next (descs s ! i)) = i + 1"
    by (simp add: s_def nxt)
  ultimately show ?thesis
    using ctor by (auto simp: s_def)
qed

section \<open>The host preserves the invariant\<close>

lemma masked_pow2:
  fixes w :: u16 and sz :: u32
  assumes "unat sz = 2 ^ k" and "k \<le> 15"
  shows "unat ((ucast w :: u64) AND word_of_int (sint sz - 1)) = unat w mod 2 ^ k"
proof -
  have "(2 :: nat) ^ k \<le> 2 ^ 15"
    using assms(2) by (rule power_increasing) simp
  then have small: "unat sz < 2 ^ 31"
    using assms(1) by simp
  have "int (unat sz) < int (2 ^ 31)"
    using small by (simp only: of_nat_less_iff)
  then have hi: "uint sz < 2 ^ 31" by simp
  have "(0 :: int) \<le> uint sz" by simp
  moreover have "- (2 ^ 31) \<le> (0 :: int)" by simp
  ultimately have lo: "- (2 ^ 31) \<le> uint sz" by (rule order_trans [rotated])
  have "signed_take_bit 31 (uint sz) = uint sz"
    using lo hi by (rule signed_take_bit_int_eq_self)
  then have "sint sz = int (unat sz)"
    by (simp add: sint_uint)
  then have "sint sz = 2 ^ k"
    by (simp only: assms(1)) simp
  then have m: "(word_of_int (sint sz - 1) :: u64) = mask k"
    by (simp add: mask_eq_exp_minus_1)
  have up: "unat (ucast w :: u64) = unat w"
    by (simp add: unsigned_ucast_eq take_bit_nat_eq_self
        order_less_trans [OF unsigned_less [of w]])
  have "unat ((ucast w :: u64) AND mask k) = unat (take_bit k (ucast w :: u64))"
    by (simp add: take_bit_eq_mask)
  also have "\<dots> = take_bit k (unat (ucast w :: u64))"
    by (simp add: unsigned_take_bit_eq)
  also have "\<dots> = unat w mod 2 ^ k"
    by (simp only: up take_bit_eq_mod)
  finally show ?thesis
    by (simp only: m)
qed

lemma mod_window_distinct:
  fixes a k n N :: nat
  assumes "k < n" and "n < N"
  shows "(a + k) mod N \<noteq> (a + n) mod N"
proof
  assume "(a + k) mod N = (a + n) mod N"
  then have "(a + n) mod N = (a + k) mod N" by simp
  moreover have "a + k \<le> a + n" using assms(1) by simp
  ultimately have "N dvd (a + n) - (a + k)"
    by (simp only: mod_eq_dvd_iff_nat)
  then have "N dvd n - k" by simp
  moreover have "0 < n - k" "n - k < N" using assms by simp_all
  ultimately show False
    by (simp add: nat_dvd_not_less)
qed

lemma pow2_mod_mod:
  fixes x :: nat
  assumes "k \<le> 16"
  shows "x mod 2 ^ 16 mod 2 ^ k = x mod 2 ^ k"
proof -
  have "(2 :: nat) ^ k dvd 2 ^ 16"
    using assms by (rule le_imp_power_dvd)
  then show ?thesis
    by (rule mod_mod_cancel)
qed

lemma unat_tail_plus:
  fixes t :: u16
  assumes "k \<le> 16"
  shows "unat (t + word_of_nat j) mod 2 ^ k = (unat t + j) mod 2 ^ k"
proof -
  have "unat (t + word_of_nat j) = (unat t + j mod 2 ^ 16) mod 2 ^ 16"
    by (simp add: unat_word_ariths unat_of_nat)
  also have "\<dots> = (unat t + j) mod 2 ^ 16"
    by (simp add: mod_add_right_eq)
  finally show ?thesis
    using pow2_mod_mod [OF assms, of "unat t + j"] by simp
qed

lemma slot_mod:
  assumes "ring_inv s fl ch cur"
  shows "unat (masked s (ucast (w :: u16))) = unat w mod length (descs s)"
proof -
  from assms obtain k where k: "k \<le> 15" "length (descs s) = 2 ^ k"
    by (auto simp: ring_inv_def ring_size_ok_def)
  from assms k have sz: "unat (c_size (vconfig s)) = 2 ^ k"
    by (simp add: ring_inv_def)
  show ?thesis
    using masked_pow2 [OF sz k(1), of w] by (simp add: masked_def mask_ring_def vsize_def k(2))
qed

lemma slot_mod_plus:
  assumes "ring_inv s fl ch cur"
  shows "unat (masked s (ucast (t + word_of_nat j :: u16))) = (unat t + j) mod length (descs s)"
proof -
  from assms obtain k where k: "k \<le> 15" "length (descs s) = 2 ^ k"
    by (auto simp: ring_inv_def ring_size_ok_def)
  from k(1) have "k \<le> 16" by simp
  from unat_tail_plus [OF this, of t j] show ?thesis
    by (simp add: slot_mod [OF assms] k(2))
qed

lemma host_step_frame2 [simp]:
  "descs (host_step a s) = descs s"
  "completions (host_step a s) = completions s"
  "free_head (host_step a s) = free_head s"
  "free_last (host_step a s) = free_last s"
  "avail_ring (host_step a s) = avail_ring s"
  "length (used_elements (host_step a s)) = length (used_elements s)"
  "batch (host_step a s) = batch s"
  "ready (host_step a s) = ready s"
  by (cases a; simp)+

lemma masked_vconfig: "vconfig s' = vconfig s \<Longrightarrow> masked s' w = masked s w"
  by (simp add: masked_def mask_ring_def vsize_def)

lemma masked_host_step [simp]: "masked (host_step a s) w = masked s w"
  by (rule masked_vconfig) simp

lemma masked_push_update [simp]:
  "masked (s\<lparr>used_elements := x, used_idx := y\<rparr>) w = masked s w"
  by (rule masked_vconfig) simp

lemma outstanding_host_step [simp]: "outstanding (host_step a s) = outstanding s"
  by (simp add: outstanding_def)

lemma free_ends_host_step [simp]: "free_ends (host_step a s) fl = free_ends s fl"
  by (simp add: free_ends_def)

lemma word_of_nat_unat_diff:
  fixes a b :: u16
  shows "b + word_of_nat (unat (a - b)) = a"
  by simp

text \<open>
  A push on a ring whose used window is shorter than the ring appends to the window.
\<close>

lemma pending_ids_push:
  assumes inv: "ring_inv s fl ch cur"
    and room: "length (pending_ids s) < length (descs s)"
  shows "pending_ids (host_step (Push ue) s) = pending_ids s @ [unat (ue_id ue)]"
proof -
  let ?N = "length (descs s)"
  let ?n = "unat (used_idx s - used_tail s)"
  let ?t = "unat (used_tail s)"
  let ?s' = "host_step (Push ue) s"
  have n: "?n < ?N" using room by (simp add: pending_ids_def)
  from ring_size_ok_bounds [of ?N] inv have N: "0 < ?N" "?N \<le> 32768"
    by (simp_all add: ring_inv_def)
  have len: "length (used_elements s) = ?N"
    using inv by (simp add: ring_inv_def)
  have inv': "vconfig ?s' = vconfig s" by simp
  have slot': "unat (masked ?s' (ucast (w :: u16))) = unat w mod ?N" for w
    using slot_mod [OF inv, of w] by (simp add: masked_def mask_ring_def vsize_def)
  have idx: "used_idx s = used_tail s + word_of_nat ?n"
    by simp
  have pslot: "unat (masked s (ucast (used_idx s))) = (?t + ?n) mod ?N"
    using slot_mod_plus [OF inv, of "used_tail s" ?n] by simp
  define d where "d = used_idx s - used_tail s"
  have "d + 1 \<noteq> 0"
  proof
    assume "d + 1 = 0"
    then have "d = - 1" by (simp add: eq_neg_iff_add_eq_0)
    then have "unat d = 65535" by (simp add: unsigned_minus_1_eq_mask mask_eq_exp_minus_1)
    with n N show False by (simp add: d_def)
  qed
  then have "unat (d + 1) = Suc (unat d)"
    using unatSuc [of d] by (simp add: add.commute)
  moreover have "used_idx s + 1 - used_tail s = d + 1"
    by (simp add: d_def)
  ultimately have "unat (used_idx s + 1 - used_tail s) = Suc (unat d)"
    by (simp only:)
  then have n': "unat (used_idx s + 1 - used_tail s) = Suc ?n"
    by (simp only: d_def)
  let ?p = "(?t + ?n) mod ?N"
  have old: "(used_elements s)[?p := ue] ! ((?t + j) mod ?N) = used_elements s ! ((?t + j) mod ?N)"
    if "j < ?n" for j
    using mod_window_distinct [OF that n, of ?t] by simp
  have new: "(used_elements s)[?p := ue] ! ?p = ue"
    using N(1) by (simp add: len)
  have "pending_ids ?s' =
          map (\<lambda>j. unat (ue_id ((used_elements s)[?p := ue] ! ((?t + j) mod ?N)))) [0..<Suc ?n]"
    by (simp add: pending_ids_def n' slot_mod_plus [OF inv] pslot del: upt_Suc)
  also have "\<dots> = map (\<lambda>j. unat (ue_id (used_elements s ! ((?t + j) mod ?N)))) [0..<?n]
                     @ [unat (ue_id ue)]"
    using old new by simp
  also have "map (\<lambda>j. unat (ue_id (used_elements s ! ((?t + j) mod ?N)))) [0..<?n]
               = pending_ids s"
    by (simp add: pending_ids_def slot_mod_plus [OF inv])
  finally show ?thesis .
qed

lemma pending_ids_cong:
  assumes "used_elements s' = used_elements s" and "used_tail s' = used_tail s"
    and "used_idx s' = used_idx s" and "vconfig s' = vconfig s"
  shows "pending_ids s' = pending_ids s"
  using assms by (simp add: pending_ids_def masked_vconfig [OF assms(4)])

lemma outstanding_cong: "completions s' = completions s \<Longrightarrow> outstanding s' = outstanding s"
  by (simp add: outstanding_def)

text \<open>The invariant reads only these members of the ring.\<close>

lemma ring_inv_cong:
  assumes "descs s' = descs s" and "completions s' = completions s"
    and "vconfig s' = vconfig s" and "used_elements s' = used_elements s"
    and "used_tail s' = used_tail s" and "used_idx s' = used_idx s"
    and "free_head s' = free_head s" and "free_last s' = free_last s"
    and "length (avail_ring s') = length (avail_ring s)"
  shows "ring_inv s' fl ch cur = ring_inv s fl ch cur"
  using assms
  by (simp add: ring_inv_def free_ends_def outstanding_cong [OF assms(2)]
      pending_ids_cong [OF assms(4,5,6,3)])

lemma outstanding_in_table:
  "ring_inv s fl ch cur \<Longrightarrow> set (outstanding s) \<subseteq> {0..<length (descs s)}"
  by (auto simp: ring_inv_def set_outstanding)

lemma window_room:
  assumes inv: "ring_inv s fl ch cur" and i: "i \<in> set (outstanding s)"
    and fresh: "i \<notin> set (pending_ids s)"
  shows "length (pending_ids s) < length (descs s)"
proof -
  from inv have d: "distinct (pending_ids s)" and sub: "set (pending_ids s) \<subseteq> set (outstanding s)"
    by (simp_all add: ring_inv_def)
  have "set (pending_ids s) \<subset> set (outstanding s)"
    using sub i fresh by auto
  then have "card (set (pending_ids s)) < card (set (outstanding s))"
    by (intro psubset_card_mono) simp_all
  also have "\<dots> \<le> card {0..<length (descs s)}"
    by (rule card_mono) (use outstanding_in_table [OF inv] in simp_all)
  finally show ?thesis
    using d by (simp add: distinct_card)
qed

declare host_step.simps [simp del]

lemma host_step_inv:
  assumes inv: "ring_inv s fl ch cur" and ok: "host_ok s (a # h)"
  shows "ring_inv (host_step a s) fl ch cur"
    and "host_ok (host_step a s) h"
    and "pending_ids (host_step a s) = pending_ids s @ push_ids [a]"
proof -
  have "ring_inv (host_step a s) fl ch cur \<and> host_ok (host_step a s) h
      \<and> pending_ids (host_step a s) = pending_ids s @ push_ids [a]"
  proof (cases a)
    case (Push ue)
    from ok Push have i: "unat (ue_id ue) \<in> set (outstanding s)"
      and fresh: "unat (ue_id ue) \<notin> set (pending_ids s)"
      and ok': "host_ok s (Push ue # h)"
      by (auto simp: host_ok_def)
    have p: "pending_ids (host_step (Push ue) s) = pending_ids s @ [unat (ue_id ue)]"
      by (rule pending_ids_push [OF inv window_room [OF inv i fresh]])
    have "ring_inv (host_step (Push ue) s) fl ch cur"
      using inv i fresh unfolding ring_inv_def p by simp
    moreover have "host_ok (host_step (Push ue) s) h"
      using ok' by (simp add: host_ok_def p)
    ultimately show ?thesis
      unfolding Push by (simp add: p)
  next
    case (Set_avail_event v)
    have p: "pending_ids (host_step a s) = pending_ids s"
      by (rule pending_ids_cong) (simp_all add: Set_avail_event host_step.simps)
    have "ring_inv (host_step a s) fl ch cur = ring_inv s fl ch cur"
      by (rule ring_inv_cong) (simp_all add: Set_avail_event host_step.simps)
    with inv ok p show ?thesis
      by (simp add: host_ok_def Set_avail_event)
  next
    case (Set_used_flags v)
    have p: "pending_ids (host_step a s) = pending_ids s"
      by (rule pending_ids_cong) (simp_all add: Set_used_flags host_step.simps)
    have "ring_inv (host_step a s) fl ch cur = ring_inv s fl ch cur"
      by (rule ring_inv_cong) (simp_all add: Set_used_flags host_step.simps)
    with inv ok p show ?thesis
      by (simp add: host_ok_def Set_used_flags)
  qed
  then show "ring_inv (host_step a s) fl ch cur"
    and "host_ok (host_step a s) h"
    and "pending_ids (host_step a s) = pending_ids s @ push_ids [a]"
    by simp_all
qed

lemma push_ids_append [simp]: "push_ids (h @ h') = push_ids h @ push_ids h'"
  by (induction h rule: push_ids.induct) simp_all

lemma host_steps_inv:
  assumes "ring_inv s fl ch cur" and "host_ok s (h @ h')"
  shows "ring_inv (host_steps h s) fl ch cur \<and> host_ok (host_steps h s) h'
       \<and> pending_ids (host_steps h s) = pending_ids s @ push_ids h
       \<and> outstanding (host_steps h s) = outstanding s"
  using assms
proof (induction h arbitrary: s)
  case Nil
  then show ?case by simp
next
  case (Cons a h)
  from Cons.prems(2) have ok: "host_ok s (a # (h @ h'))" by simp
  note st = host_step_inv [OF Cons.prems(1) ok]
  have "push_ids (a # h) = push_ids [a] @ push_ids h"
    by (cases a) simp_all
  with Cons.IH [OF st(1,2)] st(3) show ?case
    by simp
qed

section \<open>Completion preserves the invariant\<close>

lemma linked_update:
  "x \<notin> set (butlast xs) \<Longrightarrow> linked (ds[x := d]) xs = linked ds xs"
  by (induction ds xs rule: linked.induct) (auto simp: nth_list_update)

lemma is_chain_update:
  "x \<notin> set c \<Longrightarrow> is_chain (ds[x := d]) c = is_chain ds c"
  by (induction ds c rule: is_chain.induct) (auto simp: nth_list_update)

lemma is_chain_linked: "is_chain ds c \<Longrightarrow> linked ds c"
  by (induction ds c rule: is_chain.induct) auto

lemma linked_append:
  assumes "linked ds xs" and "linked ds ys"
    and "xs \<noteq> [] \<Longrightarrow> ys \<noteq> [] \<Longrightarrow> unat (d_next (ds ! last xs)) = hd ys"
  shows "linked ds (xs @ ys)"
  using assms
proof (induction ds xs rule: linked.induct)
  case (1 ds)
  then show ?case by simp
next
  case (2 ds x)
  then show ?case by (cases ys) simp_all
next
  case (3 ds x y zs)
  then show ?case by simp
qed

lemma chain_end_chain:
  assumes "is_chain ds c" and "set c \<subseteq> {0..<length ds}" and "length c \<le> fuel"
    and "unat i = hd c"
  shows "\<exists>l. chain_end fuel ds i = Inr l \<and> unat l = last c"
  using assms
proof (induction ds c arbitrary: fuel i rule: is_chain.induct)
  case (1 ds)
  then show ?case by simp
next
  case (2 ds x)
  then obtain m where "fuel = Suc m" by (cases fuel) auto
  with 2 show ?case by simp
next
  case (3 ds x y ys)
  then obtain m where fuel: "fuel = Suc m" by (cases fuel) auto
  have "unat (ucast (d_next (ds ! x)) :: u32) = unat (d_next (ds ! x))"
    by (simp add: unsigned_ucast_eq take_bit_nat_eq_self
        order_less_trans [OF unsigned_less [of "d_next (ds ! x)"]])
  with "3.prems"(1) have up: "unat (ucast (d_next (ds ! x)) :: u32) = hd (y # ys)"
    by simp
  have "\<exists>l. chain_end m ds (ucast (d_next (ds ! x))) = Inr l \<and> unat l = last (y # ys)"
    by (rule "3.IH" [OF _ _ _ up]) (use "3.prems" fuel in auto)
  with "3.prems" fuel show ?case
    by simp
qed

lemma set_outstanding_fulfil:
  "h < length (completions s) \<Longrightarrow>
   set (outstanding (s\<lparr>completions := (completions s)[h := None]\<rparr>)) = set (outstanding s) - {h}"
  by (auto simp: set_outstanding nth_list_update)

text \<open>When the used window is not empty its first entry is at \<^verbatim>\<open>used._tail\<close>.\<close>

lemma pending_ids_pop:
  assumes "pending_ids s = h # rest"
  shows "unat (ue_id (used_elements s ! unat (masked s (ucast (used_tail s))))) = h"
    and "pending_ids (s\<lparr>used_tail := used_tail s + 1\<rparr>) = rest"
proof -
  let ?n = "unat (used_idx s - used_tail s)"
  let ?f = "\<lambda>j. unat (ue_id (used_elements s
                               ! unat (masked s (ucast (used_tail s + word_of_nat j)))))"
  from assms have n: "0 < ?n"
    by (cases "?n = 0") (simp_all add: pending_ids_def)
  then have upt: "[0..<?n] = 0 # map Suc [0..<?n - 1]"
    by (simp add: upt_conv_Cons map_Suc_upt)
  from assms have "map ?f [0..<?n] = h # rest"
    by (simp add: pending_ids_def)
  then have hd: "?f 0 = h" and tl: "map (\<lambda>j. ?f (Suc j)) [0..<?n - 1] = rest"
    unfolding upt by (simp_all add: comp_def)
  from hd show "unat (ue_id (used_elements s ! unat (masked s (ucast (used_tail s))))) = h"
    by simp
  have "used_idx s - used_tail s \<noteq> 0"
    using n by (auto simp: unat_eq_0 [symmetric] simp del: unat_eq_0)
  then have n': "unat (used_idx s - (used_tail s + 1)) = ?n - 1"
    by (simp add: unat_minus_one diff_diff_eq [symmetric])
  have m: "masked (s\<lparr>used_tail := used_tail s + 1\<rparr>) w = masked s w" for w
    by (rule masked_vconfig) simp
  have "pending_ids (s\<lparr>used_tail := used_tail s + 1\<rparr>) = map (\<lambda>j. ?f (Suc j)) [0..<?n - 1]"
    by (simp add: pending_ids_def n' m add.assoc)
  with tl show "pending_ids (s\<lparr>used_tail := used_tail s + 1\<rparr>) = rest"
    by simp
qed

lemma last_notin_butlast: "distinct xs \<Longrightarrow> xs \<noteq> [] \<Longrightarrow> last xs \<notin> set (butlast xs)"
  by (metis append_butlast_last_id disjoint_insert(1) distinct_append list.simps(15))

lemma unat_ucast_u32_u16:
  fixes w :: u32
  assumes "unat w < 2 ^ 16"
  shows "unat (ucast w :: u16) = unat w"
  using assms by (simp add: unsigned_ucast_eq take_bit_nat_eq_self)

text \<open>
  One turn of the inner loop on a ring that satisfies the invariant: no error, the chain
  of the returned head goes to the end of the free list, and its completion is fulfilled.
\<close>

lemma complete_one_inv:
  assumes inv: "ring_inv s fl ch []" and pend: "pending_ids s = h # rest"
  shows "\<exists>s'. complete_one s = Inr s'
           \<and> ring_inv s' (fl @ ch h) ch []
           \<and> pending_ids s' = rest
           \<and> set (outstanding s') = set (outstanding s) - {h}
           \<and> used_idx s' = used_idx s
           \<and> batch s' = batch s \<and> poll_mode s' = poll_mode s \<and> trace s' = trace s"
proof -
  let ?N = "length (descs s)"
  let ?slot = "unat (masked s (ucast (used_tail s)))"
  let ?ue = "used_elements s ! ?slot"
  from ring_size_ok_bounds [of ?N] inv have N: "0 < ?N" "?N \<le> 32768"
    by (simp_all add: ring_inv_def)
  from inv have len: "length (completions s) = ?N" "length (used_elements s) = ?N"
    by (simp_all add: ring_inv_def)
  have slot: "?slot < ?N"
    using N(1) by (simp add: slot_mod [OF inv])
  note pop = pending_ids_pop [OF pend]
  from inv pend have hH: "h \<in> set (outstanding s)"
    by (simp add: ring_inv_def)
  then have hN: "h < ?N" and some: "completions s ! h \<noteq> None"
    by (simp_all add: set_outstanding len)
  then obtain cc where cc: "completions s ! h = Some cc" by auto
  note c = ring_inv_chain [OF inv hH]
  note f = ring_inv_free [OF inv]
  have "last (ch h) \<in> set (ch h)"
    using c(8) by simp
  with c(2) have lastc: "last (ch h) < ?N"
    by (auto dest: subsetD)
  have id16: "unat (ucast (ue_id ?ue) :: u16) = h"
    using unat_ucast_u32_u16 [of "ue_id ?ue"] hN N(2) by (simp add: pop(1))
  have sid: "sint (ue_id ?ue) = int h"
    using sint_small [of "ue_id ?ue"] hN N(2) by (simp add: pop(1))
  define ds' where "ds' = (if fl = [] then descs s
      else (descs s)[last fl := (descs s ! last fl)\<lparr>d_next := ucast (ue_id ?ue)\<rparr>])"
  have lends: "length ds' = ?N" by (simp add: ds'_def)
  have lastfl: "last fl < ?N \<and> last fl \<in> set fl" if "fl \<noteq> []"
  proof -
    from that have "last fl \<in> set fl" by simp
    with f(2) show ?thesis by (auto dest: subsetD)
  qed
  have chain': "is_chain ds' (ch h')" if "h' \<in> set (outstanding s)" for h'
  proof -
    note c' = ring_inv_chain [OF inv that]
    show ?thesis
    proof (cases "fl = []")
      case True
      with c'(6) show ?thesis by (simp add: ds'_def)
    next
      case False
      with lastfl c'(3) have "last fl \<notin> set (ch h')" by auto
      with c'(6) False show ?thesis by (simp add: ds'_def is_chain_update)
    qed
  qed
  from chain_end_chain [OF chain' [OF hH], of "Suc ?N" "ue_id ?ue"]
  obtain l where l: "chain_end (Suc ?N) ds' (ue_id ?ue) = Inr l" "unat l = last (ch h)"
    using c(2) c(7) length_le_table [OF c(1,2)] by (auto simp: lends pop(1))
  have sl: "sint l = int (last (ch h))"
    using sint_small [of l] lastc N(2) by (simp add: l(2))
  define s' where "s' = s\<lparr>used_tail := used_tail s + 1,
      completions := (completions s)[h := None],
      ready := ready s @ [(cc, ue_len ?ue)],
      descs := ds',
      free_head := (if fl = [] then int h else free_head s),
      free_last := int (last (ch h))\<rparr>"
  have ends: "free_ends s fl"
    using inv by (simp add: ring_inv_def)
  have run: "complete_one s = Inr s'"
  proof (cases "fl = []")
    case True
    with ends have "free_last s = - 1" by (simp add: free_ends_def)
    then show ?thesis
      using slot hN l sl
      by (simp add: complete_one_def Let_def len pop(1) set_value_def cc link_free_def sid
          s'_def ds'_def True)
  next
    case False
    with ends lastfl have "free_last s = int (last fl)" "last fl < ?N"
      by (simp_all add: free_ends_def)
    then show ?thesis
      using slot hN l sl False
      by (simp add: complete_one_def Let_def len pop(1) set_value_def cc link_free_def
          s'_def ds'_def)
  qed
  have out: "set (outstanding s') = set (outstanding s) - {h}"
  proof -
    have "outstanding s' = outstanding (s\<lparr>completions := (completions s)[h := None]\<rparr>)"
      by (rule outstanding_cong) (simp add: s'_def)
    then show ?thesis
      using hN by (simp add: set_outstanding_fulfil len)
  qed
  have pen: "pending_ids s' = rest"
  proof -
    have "pending_ids s' = pending_ids (s\<lparr>used_tail := used_tail s + 1\<rparr>)"
      by (rule pending_ids_cong) (simp_all add: s'_def)
    with pop(2) show ?thesis by simp
  qed
  have lk: "linked ds' (fl @ ch h)"
  proof (rule linked_append)
    from inv have l0: "linked (descs s) fl" by (simp add: ring_inv_def)
    show "linked ds' fl"
    proof (cases "fl = []")
      case True
      then show ?thesis by simp
    next
      case False
      with l0 last_notin_butlast [OF f(1) False] show ?thesis
        by (simp add: ds'_def linked_update)
    qed
    show "linked ds' (ch h)"
      by (rule is_chain_linked [OF chain' [OF hH]])
    show "unat (d_next (ds' ! last fl)) = hd (ch h)" if "fl \<noteq> []"
      using that lastfl by (simp add: ds'_def id16 c(7))
  qed
  have fe: "free_ends s' (fl @ ch h)"
    using c(8) c(7) ends by (auto simp: free_ends_def s'_def)
  have part: "mset (fl @ ch h) + mset [] + (\<Sum>h' \<in> set (outstanding s) - {h}. mset (ch h'))
      = mset_set {0..<?N}"
  proof -
    have "(\<Sum>h' \<in> set (outstanding s). mset (ch h'))
            = mset (ch h) + (\<Sum>h' \<in> set (outstanding s) - {h}. mset (ch h'))"
      by (rule sum.remove) (simp_all add: hH)
    moreover from inv have "mset fl + mset [] + (\<Sum>h' \<in> set (outstanding s). mset (ch h'))
        = mset_set {0..<?N}"
      by (simp add: ring_inv_def)
    ultimately show ?thesis
      by (simp add: add.assoc)
  qed
  have pd: "distinct rest" "set rest \<subseteq> set (outstanding s) - {h}"
    using inv pend by (auto simp: ring_inv_def)
  have "ring_inv s' (fl @ ch h) ch []"
    unfolding ring_inv_def out pen
    using inv lk fe part pd chain' ring_inv_chain(7) [OF inv]
    by (simp add: s'_def lends ring_inv_def)
  with run out pen show ?thesis
    by (auto simp: s'_def)
qed

section \<open>The completion loops keep the invariant\<close>

lemma stored_heads_append [simp]:
  "stored_heads (t @ u) = stored_heads t @ stored_heads u"
  by (induction t rule: stored_heads.induct) simp_all

lemma quiet_refl [simp]: "quiet s s"
  by (simp add: quiet_def)

lemma quiet_trans: "quiet s s1 \<Longrightarrow> quiet s1 s2 \<Longrightarrow> quiet s s2"
  by (simp add: quiet_def)

lemma quiet_pub_order: "quiet s s' \<Longrightarrow> pub_order s' = pub_order s"
  by (simp add: quiet_def pub_order_def)

lemma host_ok_cong:
  "pending_ids s' = pending_ids s \<Longrightarrow> outstanding s' = outstanding s \<Longrightarrow>
     host_ok s' h = host_ok s h"
  by (simp add: host_ok_def)

lemma ring_inv_frame [simp]:
  "ring_inv (s\<lparr>trace := t\<rparr>) fl ch cur = ring_inv s fl ch cur"
  "ring_inv (s\<lparr>avail_flags := f\<rparr>) fl ch cur = ring_inv s fl ch cur"
  "ring_inv (s\<lparr>used_event := e\<rparr>) fl ch cur = ring_inv s fl ch cur"
  "ring_inv (s\<lparr>batch := b\<rparr>) fl ch cur = ring_inv s fl ch cur"
  "ring_inv (s\<lparr>avail_added_since_kick := k\<rparr>) fl ch cur = ring_inv s fl ch cur"
  "ring_inv (s\<lparr>avail_idx := i\<rparr>) fl ch cur = ring_inv s fl ch cur"
  "ring_inv (s\<lparr>avail_head := hd'\<rparr>) fl ch cur = ring_inv s fl ch cur"
  by (rule ring_inv_cong; simp)+

lemma pending_ids_frame [simp]:
  "pending_ids (s\<lparr>trace := t\<rparr>) = pending_ids s"
  "pending_ids (s\<lparr>avail_flags := f\<rparr>) = pending_ids s"
  "pending_ids (s\<lparr>used_event := e\<rparr>) = pending_ids s"
  "pending_ids (s\<lparr>batch := b\<rparr>) = pending_ids s"
  "pending_ids (s\<lparr>avail_added_since_kick := k\<rparr>) = pending_ids s"
  "pending_ids (s\<lparr>avail_idx := i\<rparr>) = pending_ids s"
  "pending_ids (s\<lparr>avail_head := hd'\<rparr>) = pending_ids s"
  "pending_ids (s\<lparr>avail_ring := r\<rparr>) = pending_ids s"
  by (rule pending_ids_cong; simp)+

lemma outstanding_frame [simp]:
  "outstanding (s\<lparr>trace := t\<rparr>) = outstanding s"
  "outstanding (s\<lparr>avail_flags := f\<rparr>) = outstanding s"
  "outstanding (s\<lparr>used_event := e\<rparr>) = outstanding s"
  "outstanding (s\<lparr>batch := b\<rparr>) = outstanding s"
  "outstanding (s\<lparr>avail_added_since_kick := k\<rparr>) = outstanding s"
  "outstanding (s\<lparr>avail_idx := i\<rparr>) = outstanding s"
  "outstanding (s\<lparr>avail_head := hd'\<rparr>) = outstanding s"
  "outstanding (s\<lparr>avail_ring := r\<rparr>) = outstanding s"
  by (rule outstanding_cong; simp)+

lemma host_ok_frame [simp]:
  "host_ok (s\<lparr>trace := t\<rparr>) h = host_ok s h"
  "host_ok (s\<lparr>avail_flags := f\<rparr>) h = host_ok s h"
  "host_ok (s\<lparr>used_event := e\<rparr>) h = host_ok s h"
  "host_ok (s\<lparr>batch := b\<rparr>) h = host_ok s h"
  "host_ok (s\<lparr>avail_added_since_kick := k\<rparr>) h = host_ok s h"
  "host_ok (s\<lparr>avail_idx := i\<rparr>) h = host_ok s h"
  "host_ok (s\<lparr>avail_head := hd'\<rparr>) h = host_ok s h"
  "host_ok (s\<lparr>avail_ring := r\<rparr>) h = host_ok s h"
  by (simp_all add: host_ok_def)

lemma length_pending_ids: "length (pending_ids s) = unat (used_idx s - used_tail s)"
  by (simp add: pending_ids_def)

lemma drain_loop_inv:
  assumes "ring_inv s fl ch []"
  shows "\<exists>s' fl'. drain_loop (used_idx s) s = Inr s' \<and> ring_inv s' fl' ch []
           \<and> pending_ids s' = []
           \<and> set (outstanding s') = set (outstanding s) - set (pending_ids s)
           \<and> quiet s s'"
  using assms
proof (induction "length (pending_ids s)" arbitrary: s fl)
  case 0
  then have "used_idx s = used_tail s"
    by (simp add: length_pending_ids unat_eq_0)
  with 0 show ?case
    by (auto simp: drain_loop.simps [of _ s])
next
  case (Suc n)
  from Suc.hyps(2) obtain h rest where p: "pending_ids s = h # rest"
    by (cases "pending_ids s") simp_all
  from Suc.hyps(2) have ne: "used_idx s \<noteq> used_tail s"
    by (auto simp: length_pending_ids)
  from complete_one_inv [OF Suc.prems p] obtain s1 where
    one: "complete_one s = Inr s1" and inv1: "ring_inv s1 (fl @ ch h) ch []"
    and p1: "pending_ids s1 = rest"
    and o1: "set (outstanding s1) = set (outstanding s) - {h}"
    and i1: "used_idx s1 = used_idx s" and b1: "quiet s s1"
    by (auto simp: quiet_def)
  from p p1 Suc.hyps(2) have "n = length (pending_ids s1)" by simp
  from Suc.hyps(1) [OF this inv1] obtain s' fl' where
    r: "drain_loop (used_idx s1) s1 = Inr s'" "ring_inv s' fl' ch []" "pending_ids s' = []"
      "set (outstanding s') = set (outstanding s1) - set (pending_ids s1)"
      "quiet s1 s'"
    by blast
  have "drain_loop (used_idx s) s = Inr s'"
    using ne one r(1) i1 by (simp add: drain_loop.simps [of _ s])
  moreover have "set (outstanding s') = set (outstanding s) - set (pending_ids s)"
    using r(4) o1 p p1 by auto
  ultimately show ?case
    using r(2,3) quiet_trans [OF b1 r(5)] by auto
qed

lemma disable_interrupts_cong:
  "descs (disable_interrupts s) = descs s"
  "completions (disable_interrupts s) = completions s"
  "vconfig (disable_interrupts s) = vconfig s"
  "used_elements (disable_interrupts s) = used_elements s"
  "used_tail (disable_interrupts s) = used_tail s"
  "used_idx (disable_interrupts s) = used_idx s"
  "free_head (disable_interrupts s) = free_head s"
  "free_last (disable_interrupts s) = free_last s"
  "avail_ring (disable_interrupts s) = avail_ring s"
  "batch (disable_interrupts s) = batch s"
  by (simp_all add: disable_interrupts_def emit_def)

lemma host_steps_batch [simp]: "batch (host_steps h s) = batch s"
proof (induction h arbitrary: s)
  case Nil
  show ?case by simp
next
  case (Cons a h)
  have "batch (host_step a s) = batch s"
    by (cases a) (simp_all add: host_step.simps)
  with Cons show ?case by simp
qed

lemma host_steps_quiet [simp]: "quiet s (host_steps h s)"
  by (simp add: quiet_def)

lemma drain_inv:
  assumes inv: "ring_inv s fl ch []" and ok: "host_ok s (h @ h')"
  shows "\<exists>s' fl'. drain h s = Inr s' \<and> ring_inv s' fl' ch [] \<and> host_ok s' h'
           \<and> pending_ids s' = [] \<and> quiet s s'"
proof -
  let ?d = "disable_interrupts s"
  have inv0: "ring_inv ?d fl ch []"
    using inv by (simp add: disable_interrupts_def emit_def)
  have ok0: "host_ok ?d (h @ h')"
    using ok by (simp add: disable_interrupts_def emit_def)
  define s1 where "s1 = host_steps h ?d"
  from host_steps_inv [OF inv0 ok0] have s1: "ring_inv s1 fl ch []" "host_ok s1 h'"
    by (simp_all add: s1_def)
  define s2 where "s2 = emit (Load_used_idx (used_idx s1)) s1"
  have inv2: "ring_inv s2 fl ch []"
    using s1(1) by (simp add: s2_def emit_def)
  have same: "pending_ids s2 = pending_ids s1" "outstanding s2 = outstanding s1"
    "used_idx s2 = used_idx s1" "quiet s s2"
    by (simp_all add: s2_def emit_def s1_def disable_interrupts_def quiet_def)
  from drain_loop_inv [OF inv2] obtain s' fl' where
    r: "drain_loop (used_idx s2) s2 = Inr s'" "ring_inv s' fl' ch []" "pending_ids s' = []"
      "set (outstanding s') = set (outstanding s2) - set (pending_ids s2)" "quiet s2 s'"
    by blast
  have run: "drain h s = Inr s'"
    using r(1) by (simp add: drain_def Let_def s1_def [symmetric] s2_def [symmetric] same)
  have "host_ok s' h'"
    using s1(2) r(3,4) by (auto simp: host_ok_def same)
  with run r(2,3) quiet_trans [OF same(4) r(5)] show ?thesis
    by auto
qed

lemma enable_interrupts_inv:
  assumes inv: "ring_inv s fl ch []" and ok: "host_ok s (h @ h')"
  shows "ring_inv (snd (enable_interrupts h s)) fl ch []
       \<and> host_ok (snd (enable_interrupts h s)) h'
       \<and> quiet s (snd (enable_interrupts h s))"
proof (cases "poll_mode s")
  case True
  have "host_ok s h'"
    using ok by (auto simp: host_ok_def)
  with True inv show ?thesis
    by (simp add: enable_interrupts_def)
next
  case False
  define s1 where "s1 = (if \<not> c_event_index (vconfig s)
                  then (emit (Store_avail_flags 0) s)\<lparr>avail_flags := 0\<rparr>
                  else (emit (Store_used_event (used_tail s)) s)\<lparr>used_event := used_tail s\<rparr>)"
  define s2 where "s2 = emit Fence s1"
  have inv2: "ring_inv s2 fl ch []"
    using inv by (simp add: s2_def s1_def emit_def)
  have ok2: "host_ok s2 (h @ h')"
    using ok by (simp add: s2_def s1_def emit_def)
  define s3 where "s3 = host_steps h s2"
  from host_steps_inv [OF inv2 ok2] have s3: "ring_inv s3 fl ch []" "host_ok s3 h'"
    by (simp_all add: s3_def)
  define s4 where "s4 = emit (Load_used_idx (used_idx s3)) s3"
  have "ring_inv s4 fl ch []"
    using s3(1) by (simp add: s4_def emit_def)
  moreover have "host_ok s4 h'"
    using s3(2) by (simp add: s4_def emit_def)
  moreover have "quiet s s4"
    by (simp add: s4_def s3_def s2_def s1_def emit_def quiet_def)
  moreover have "snd (enable_interrupts h s) = s4"
    using False
    by (simp add: enable_interrupts_def Let_def s1_def [symmetric] s2_def [symmetric]
        s3_def [symmetric] s4_def [symmetric])
  ultimately show ?thesis by simp
qed

lemma do_complete_inv:
  assumes "ring_inv s fl ch []" and "host_ok s (schedule_actions hs @ h')"
  shows "\<exists>s' fl'. do_complete hs s = Inr s' \<and> ring_inv s' fl' ch [] \<and> host_ok s' h'
           \<and> quiet s s'"
  using assms
proof (induction hs s arbitrary: fl rule: do_complete.induct)
  case (1 hs s)
  define a where "a = fst (this_turn hs)"
  define b where "b = snd (this_turn hs)"
  have sched: "schedule_actions hs = a @ b @ schedule_actions (tl hs)"
    by (cases hs) (simp_all add: schedule_actions_def this_turn_def a_def b_def)
  from "1.prems"(2) have ok: "host_ok s (a @ (b @ schedule_actions (tl hs) @ h'))"
    by (simp add: sched)
  from drain_inv [OF "1.prems"(1) ok] obtain s1 fl1 where
    d: "drain (fst (this_turn hs)) s = Inr s1" and inv1: "ring_inv s1 fl1 ch []"
    and ok1: "host_ok s1 (b @ (schedule_actions (tl hs) @ h'))" and b1: "quiet s s1"
    by (auto simp: a_def)
  define r where "r = enable_interrupts (snd (this_turn hs)) s1"
  from enable_interrupts_inv [OF inv1 ok1] have
    r: "ring_inv (snd r) fl1 ch []" "host_ok (snd r) (schedule_actions (tl hs) @ h')"
      "quiet s (snd r)"
    using quiet_trans [OF b1] by (simp_all add: r_def b_def)
  show ?case
  proof (cases "fst r")
    case False
    have "host_ok (snd r) h'"
      using r(2) by (auto simp: host_ok_def)
    with False r d show ?thesis
      by (auto simp: do_complete.simps [of hs s] Let_def r_def)
  next
    case True
    from "1.IH" [OF d r_def True r(1,2)] obtain s' fl' where
      "do_complete (tl hs) (snd r) = Inr s'" "ring_inv s' fl' ch []" "host_ok s' h'"
      "quiet (snd r) s'"
      by blast
    with True d quiet_trans [OF r(3)] show ?thesis
      by (auto simp: do_complete.simps [of hs s] Let_def r_def)
  qed
qed

section \<open>Posting keeps the invariant\<close>

lemma unat_word_of_nat_u32:
  "x \<le> 32768 \<Longrightarrow> unat (word_of_nat x :: u32) = x"
  by (simp add: unat_of_nat)

text \<open>
  \<^verbatim>\<open>allocate_desc()\<close> on a ring that satisfies the invariant pops the head of the free
  list, and fails the assertion when the list is empty.
\<close>

lemma allocate_desc_empty:
  "ring_inv s [] ch cur \<Longrightarrow> allocate_desc s = Inl Assert_failed"
  by (simp add: ring_inv_def free_ends_def allocate_desc_def)

lemma allocate_desc_inv:
  assumes inv: "ring_inv s (x # fl) ch cur"
  shows "\<exists>i a b. allocate_desc s = Inr (i, s\<lparr>free_last := b, free_head := a\<rparr>) \<and> unat i = x
           \<and> ring_inv (s\<lparr>free_last := b, free_head := a\<rparr>) fl ch (cur @ [x])"
proof -
  let ?N = "length (descs s)"
  from ring_size_ok_bounds [of ?N] inv have N: "0 < ?N" "?N \<le> 32768"
    by (simp_all add: ring_inv_def)
  note f = ring_inv_free [OF inv]
  from f(2) have x: "x < ?N" by simp
  from inv have ends: "free_head s = int x" "free_last s = int (last (x # fl))"
    and lk: "linked (descs s) (x # fl)"
    by (simp_all add: ring_inv_def free_ends_def)
  have i: "unat (word_of_nat x :: u32) = x"
    using x N(2) by (simp add: unat_word_of_nat_u32)
  have rest: "ring_inv (s\<lparr>free_last := b, free_head := a\<rparr>) fl ch (cur @ [x])"
    if "free_ends (s\<lparr>free_last := b, free_head := a\<rparr>) fl" for a b
  proof -
    let ?s = "s\<lparr>free_last := b, free_head := a\<rparr>"
    have "pending_ids ?s = pending_ids s"
      by (rule pending_ids_cong) simp_all
    moreover have "outstanding ?s = outstanding s"
      by (rule outstanding_cong) simp
    moreover have "linked (descs s) fl"
      using lk by (cases fl) simp_all
    ultimately show ?thesis
      using inv that by (simp add: ring_inv_def)
  qed
  show ?thesis
  proof (cases fl)
    case Nil
    have "free_ends (s\<lparr>free_last := - 1, free_head := - 1\<rparr>) fl"
      by (simp add: free_ends_def Nil)
    from rest [OF this] show ?thesis
      using ends i by (auto simp: allocate_desc_def Let_def Nil)
  next
    case (Cons y fl')
    from f(1) have "x \<noteq> last (x # fl)"
      by (auto simp: Cons)
    then have ne: "free_head s \<noteq> free_last s"
      using ends by simp
    from lk have nx: "unat (d_next (descs s ! x)) = y"
      by (simp add: Cons)
    then have "uint (d_next (descs s ! x)) = int y"
      by (simp only: uint_nat)
    then have "free_ends (s\<lparr>free_last := free_last s, free_head := uint (d_next (descs s ! x))\<rparr>) fl"
      using ends by (simp add: free_ends_def Cons)
    note r = rest [OF this]
    have same: "s\<lparr>free_head := a\<rparr> = s\<lparr>free_last := free_last s, free_head := a\<rparr>" for a
      by simp
    have "allocate_desc s = Inr (word_of_nat x,
        s\<lparr>free_last := free_last s, free_head := uint (d_next (descs s ! x))\<rparr>)"
      using ends(1) ne x
      by (simp add: allocate_desc_def Let_def same [symmetric] del: ends(2))
    with r i show ?thesis
      by blast
  qed
qed

lemma ring_inv_descs_update:
  assumes inv: "ring_inv s fl ch cur" and i: "i \<in> set cur"
  shows "ring_inv (s\<lparr>descs := (descs s)[i := d]\<rparr>) fl ch cur"
proof -
  let ?s = "s\<lparr>descs := (descs s)[i := d]\<rparr>"
  note f = ring_inv_free [OF inv]
  from f(3) i have "i \<notin> set fl" by auto
  then have "i \<notin> set (butlast fl)"
    by (auto dest: in_set_butlastD)
  then have lk: "linked (descs ?s) fl = linked (descs s) fl"
    by (simp add: linked_update)
  have p: "pending_ids ?s = pending_ids s"
    by (rule pending_ids_cong) simp_all
  have o: "outstanding ?s = outstanding s"
    by (rule outstanding_cong) simp
  have c: "is_chain (descs ?s) (ch h) = is_chain (descs s) (ch h)"
    if "h \<in> set (outstanding s)" for h
  proof -
    from ring_inv_chain(4) [OF inv that] i have "i \<notin> set (ch h)" by auto
    then show ?thesis by (simp add: is_chain_update)
  qed
  have fe: "free_ends ?s fl = free_ends s fl"
    by (simp add: free_ends_def)
  have chains: "\<forall>h \<in> set (outstanding s). is_chain (descs ?s) (ch h) \<and> hd (ch h) = h"
    using inv c by (auto simp: ring_inv_def)
  show ?thesis
    unfolding ring_inv_def p o lk fe
    using inv chains by (simp add: ring_inv_def)
qed

text \<open>
  One turn of the inner loop of \<^verbatim>\<open>post\<close> on the descriptors: the descriptor \<open>prev\<close>
  points to gets \<^verbatim>\<open>has_next\<close> and the link, and the new one is written with
  \<^verbatim>\<open>has_next\<close> clear.
\<close>

lemma is_chain_snoc:
  assumes "is_chain ds cur" and "distinct (cur @ [x])" and "set cur \<subseteq> {0..<length ds}"
    and "x < length ds" and "unat nx = x" and "\<not> d_has_next d"
  shows "is_chain ((ds[last cur := (ds ! last cur)\<lparr>d_has_next := True, d_next := nx\<rparr>])[x := d])
           (cur @ [x])"
  using assms
proof (induction ds cur rule: is_chain.induct)
  case (1 ds)
  then show ?case by simp
next
  case (2 ds c)
  then show ?case by simp
next
  case (3 ds c c' cs)
  from "3.prems" have IH: "is_chain
      ((ds[last (c' # cs) := (ds ! last (c' # cs))\<lparr>d_has_next := True, d_next := nx\<rparr>])[x := d])
      ((c' # cs) @ [x])"
    by (intro "3.IH") simp_all
  from "3.prems"(2) have "c \<noteq> x" "c \<noteq> last (c' # cs)"
    by auto
  with IH "3.prems" show ?case
    by (cases cs) (simp_all add: nth_list_update)
qed

lemma chain_buffers_snoc:
  assumes "distinct (cur @ [x])" and "x < length ds"
  shows "chain_buffers ((ds[p := (ds ! p)\<lparr>d_has_next := True, d_next := nx\<rparr>])
           [x := e\<lparr>d_has_next := False, d_writeable := b_writeable b, d_indirect := False,
                   d_paddr := b_addr b, d_len := b_len b\<rparr>]) (cur @ [x])
         = chain_buffers ds cur @ [b]"
proof -
  have "desc_buffer (((ds[p := (ds ! p)\<lparr>d_has_next := True, d_next := nx\<rparr>])
           [x := d]) ! i) = desc_buffer (ds ! i)" if "i \<in> set cur" for i d
  proof -
    from that assms(1) have "i \<noteq> x" by auto
    then show ?thesis
      by (cases "i = p"; cases "p < length ds")
        (simp_all add: desc_buffer_def list_update_beyond)
  qed
  then show ?thesis
    using assms(2) by (simp add: chain_buffers_def desc_buffer_def)
qed

lemma post_frame_refl: "post_frame s s"
  by (simp add: post_frame_def)

lemma post_frame_trans: "post_frame s s1 \<Longrightarrow> post_frame s1 s2 \<Longrightarrow> post_frame s s2"
  by (simp add: post_frame_def)

lemma post_frame_step: "post_frame s (s\<lparr>free_last := b, free_head := a, descs := ds\<rparr>)"
  by (simp add: post_frame_def)

lemma post_buffers_step:
  assumes inv: "ring_inv s (x # fl') ch cur"
    and prev: "prev = (if cur = [] then None else Some (last cur))"
    and cur: "cur \<noteq> [] \<Longrightarrow> is_chain (descs s) cur \<and> unat (d_next ph) = hd cur"
  shows "\<exists>ph1 s2. post_buffers (bf # bs) ph prev s = post_buffers bs ph1 (Some x) s2
           \<and> post_frame s s2 \<and> ring_inv s2 fl' ch (cur @ [x])
           \<and> is_chain (descs s2) (cur @ [x]) \<and> unat (d_next ph1) = hd (cur @ [x])
           \<and> chain_buffers (descs s2) (cur @ [x]) = chain_buffers (descs s) cur @ [bf]"
proof -
  let ?N = "length (descs s)"
  from ring_size_ok_bounds [of ?N] inv have N: "0 < ?N" "?N \<le> 32768"
    by (simp_all add: ring_inv_def)
  from allocate_desc_inv [of s x fl' ch cur] inv obtain i a b where
    al: "allocate_desc s = Inr (i, s\<lparr>free_last := b, free_head := a\<rparr>)" and i: "unat i = x"
    and inv1: "ring_inv (s\<lparr>free_last := b, free_head := a\<rparr>) fl' ch (cur @ [x])"
    by auto
  let ?s1 = "s\<lparr>free_last := b, free_head := a\<rparr>"
  note f1 = ring_inv_free [OF inv1]
  from f1(5) have x: "x < ?N" and curN: "set cur \<subseteq> {0..<?N}" by simp_all
  from f1(4) have dist: "distinct (cur @ [x])" .
  have i16: "unat (ucast i :: u16) = x"
    using unat_ucast_u32_u16 [of i] x N(2) by (simp add: i)
  define ph1 where "ph1 = (if cur = [] then ph\<lparr>d_has_next := True, d_next := ucast i\<rparr> else ph)"
  define ds1 where "ds1 = (if cur = [] then descs s
      else (descs s)[last cur := (descs s ! last cur)\<lparr>d_has_next := True, d_next := ucast i\<rparr>])"
  define d where "d = (ds1 ! x)\<lparr>d_has_next := False, d_writeable := b_writeable bf,
      d_indirect := False, d_paddr := b_addr bf, d_len := b_len bf\<rparr>"
  let ?s2 = "s\<lparr>free_last := b, free_head := a, descs := ds1[x := d]\<rparr>"
  have len1: "length ds1 = ?N" by (simp add: ds1_def)
  have step: "post_buffers (bf # bs) ph prev s = post_buffers bs ph1 (Some x) ?s2"
    using al x prev
    by (simp add: i ph1_def ds1_def d_def Let_def len1 [unfolded ds1_def])
  have inv2: "ring_inv ?s2 fl' ch (cur @ [x])"
  proof -
    have a1: "ring_inv (?s1\<lparr>descs := ds1\<rparr>) fl' ch (cur @ [x])"
    proof (cases "cur = []")
      case True
      with inv1 show ?thesis by (simp add: ds1_def)
    next
      case False
      then have "last cur \<in> set (cur @ [x])" by simp
      from ring_inv_descs_update [OF inv1 this] False show ?thesis
        by (simp add: ds1_def)
    qed
    have "x \<in> set (cur @ [x])" by simp
    from ring_inv_descs_update [OF a1 this, of d] show ?thesis
      by simp
  qed
  have chain2: "is_chain (ds1[x := d]) (cur @ [x])"
  proof (cases "cur = []")
    case True
    with x show ?thesis by (simp add: ds1_def d_def)
  next
    case False
    with cur have "is_chain (descs s) cur" by simp
    from is_chain_snoc [OF this dist curN x i16, of d] False show ?thesis
      by (simp add: ds1_def d_def)
  qed
  have hd2: "unat (d_next ph1) = hd (cur @ [x])"
    using cur i16 by (simp add: ph1_def)
  have buf2: "chain_buffers (ds1[x := d]) (cur @ [x]) = chain_buffers (descs s) cur @ [bf]"
  proof (cases "cur = []")
    case True
    with x show ?thesis
      by (simp add: ds1_def d_def chain_buffers_def desc_buffer_def)
  next
    case False
    with chain_buffers_snoc [OF dist x, where p = "last cur" and nx = "ucast i"
        and e = "ds1 ! x" and b = bf] show ?thesis
      by (simp add: ds1_def d_def)
  qed
  have "post_frame s ?s2"
    by (rule post_frame_step)
  with step inv2 chain2 hd2 buf2 show ?thesis
    by (intro exI [of _ ph1] exI [of _ ?s2]) simp
qed

lemma post_buffers_inv:
  assumes "ring_inv s fl ch cur" and "length bs \<le> length fl"
    and "prev = (if cur = [] then None else Some (last cur))"
    and "cur \<noteq> [] \<Longrightarrow> is_chain (descs s) cur \<and> unat (d_next ph) = hd cur"
  shows "\<exists>ph' s'. post_buffers bs ph prev s = Inr (ph', s') \<and> post_frame s s'
           \<and> ring_inv s' (drop (length bs) fl) ch (cur @ take (length bs) fl)
           \<and> (cur @ take (length bs) fl \<noteq> [] \<longrightarrow>
                is_chain (descs s') (cur @ take (length bs) fl)
                \<and> unat (d_next ph') = hd (cur @ take (length bs) fl))
           \<and> chain_buffers (descs s') (cur @ take (length bs) fl)
               = chain_buffers (descs s) cur @ bs"
  using assms
proof (induction bs arbitrary: s fl cur prev ph)
  case Nil
  then show ?case
    by (auto simp: post_frame_refl)
next
  case (Cons bf bs)
  from Cons.prems(2) obtain x fl' where fl: "fl = x # fl'"
    by (cases fl) simp_all
  from post_buffers_step [OF Cons.prems(1) [unfolded fl] Cons.prems(3), of ph bf bs]
    Cons.prems(4)
  obtain ph1 s2 where
    st: "post_buffers (bf # bs) ph prev s = post_buffers bs ph1 (Some x) s2"
      "post_frame s s2" "ring_inv s2 fl' ch (cur @ [x])"
      "is_chain (descs s2) (cur @ [x])" "unat (d_next ph1) = hd (cur @ [x])"
      "chain_buffers (descs s2) (cur @ [x]) = chain_buffers (descs s) cur @ [bf]"
    by blast
  have le: "length bs \<le> length fl'"
    using Cons.prems(2) by (simp add: fl)
  have "\<exists>ph' s'. post_buffers bs ph1 (Some x) s2 = Inr (ph', s') \<and> post_frame s2 s'
           \<and> ring_inv s' (drop (length bs) fl') ch ((cur @ [x]) @ take (length bs) fl')
           \<and> ((cur @ [x]) @ take (length bs) fl' \<noteq> [] \<longrightarrow>
                is_chain (descs s') ((cur @ [x]) @ take (length bs) fl')
                \<and> unat (d_next ph') = hd ((cur @ [x]) @ take (length bs) fl'))
           \<and> chain_buffers (descs s') ((cur @ [x]) @ take (length bs) fl')
               = chain_buffers (descs s2) (cur @ [x]) @ bs"
    by (rule Cons.IH [OF st(3) le]) (use st(4,5) in simp_all)
  then obtain ph' s' where
    r: "post_buffers bs ph1 (Some x) s2 = Inr (ph', s')" "post_frame s2 s'"
      "ring_inv s' (drop (length bs) fl') ch ((cur @ [x]) @ take (length bs) fl')"
      "is_chain (descs s') ((cur @ [x]) @ take (length bs) fl')"
      "unat (d_next ph') = hd ((cur @ [x]) @ take (length bs) fl')"
      "chain_buffers (descs s') ((cur @ [x]) @ take (length bs) fl')
               = chain_buffers (descs s2) (cur @ [x]) @ bs"
    by auto
  have "post_frame s s'"
    by (rule post_frame_trans [OF st(2) r(2)])
  with r st(1,6) show ?case
    by (simp add: fl)
qed

text \<open>With fewer free descriptors than buffers the assertion of \<^verbatim>\<open>allocate_desc()\<close> fails.\<close>

lemma post_buffers_short:
  assumes "ring_inv s fl ch cur" and "length fl < length bs"
    and "prev = (if cur = [] then None else Some (last cur))"
    and "cur \<noteq> [] \<Longrightarrow> is_chain (descs s) cur \<and> unat (d_next ph) = hd cur"
  shows "post_buffers bs ph prev s = Inl Assert_failed"
  using assms
proof (induction bs arbitrary: s fl cur prev ph)
  case Nil
  then show ?case by simp
next
  case (Cons bf bs)
  show ?case
  proof (cases fl)
    case Nil
    with Cons.prems(1) have "allocate_desc s = Inl Assert_failed"
      by (simp add: allocate_desc_empty)
    then show ?thesis by simp
  next
    case (Cons x fl')
    from post_buffers_step [OF Cons.prems(1) [unfolded Cons] Cons.prems(3), of ph bf bs]
      Cons.prems(4)
    obtain ph1 s2 where
      st: "post_buffers (bf # bs) ph prev s = post_buffers bs ph1 (Some x) s2"
        "ring_inv s2 fl' ch (cur @ [x])"
        "is_chain (descs s2) (cur @ [x])" "unat (d_next ph1) = hd (cur @ [x])"
      by blast
    have lt: "length fl' < length bs"
      using Cons.prems(2) by (simp add: Cons)
    have "post_buffers bs ph1 (Some x) s2 = Inl Assert_failed"
      by (rule Cons.IH [OF st(2) lt]) (use st(3,4) in simp_all)
    with st(1) show ?thesis by simp
  qed
qed

lemma ring_inv_avail_ring:
  "length r = length (avail_ring s) \<Longrightarrow>
     ring_inv (s\<lparr>avail_ring := r\<rparr>) fl ch cur = ring_inv s fl ch cur"
  by (rule ring_inv_cong) simp_all

lemma set_outstanding_post:
  "h < length (completions s) \<Longrightarrow>
   set (outstanding (s\<lparr>completions := (completions s)[h := Some c]\<rparr>))
     = insert h (set (outstanding s))"
  by (auto simp: set_outstanding nth_list_update)

text \<open>
  The chain a \<^verbatim>\<open>post\<close> has built becomes the chain of its head when the completion is
  stored in the table.
\<close>

lemma ring_inv_publish:
  assumes inv: "ring_inv s fl ch cur" and ne: "cur \<noteq> []" and chain: "is_chain (descs s) cur"
  shows "ring_inv (s\<lparr>completions := (completions s)[hd cur := Some c]\<rparr>) fl
           (ch(hd cur := cur)) []"
    and "set (outstanding (s\<lparr>completions := (completions s)[hd cur := Some c]\<rparr>))
           = insert (hd cur) (set (outstanding s))"
    and "hd cur \<notin> set (outstanding s)"
    and "hd cur < length (descs s)"
proof -
  let ?h = "hd cur"
  let ?H = "set (outstanding s)"
  let ?s = "s\<lparr>completions := (completions s)[?h := Some c]\<rparr>"
  note f = ring_inv_free [OF inv]
  from ne have hc: "?h \<in> set cur" by simp
  with f(5) show hN: "?h < length (descs s)" by auto
  from inv have len: "length (completions s) = length (descs s)"
    by (simp add: ring_inv_def)
  show fresh: "?h \<notin> ?H"
  proof
    assume a: "?h \<in> ?H"
    note c = ring_inv_chain [OF inv a]
    from c(7,8) have "?h \<in> set (ch ?h)"
      using hd_in_set [of "ch ?h"] by simp
    with c(4) hc show False by auto
  qed
  show out: "set (outstanding ?s) = insert ?h ?H"
    using hN by (simp add: set_outstanding_post len)
  have p: "pending_ids ?s = pending_ids s"
    by (rule pending_ids_cong) simp_all
  have "(\<Sum>h' \<in> insert ?h ?H. mset ((ch(?h := cur)) h'))
          = mset ((ch(?h := cur)) ?h) + (\<Sum>h' \<in> ?H. mset ((ch(?h := cur)) h'))"
    by (rule sum.insert) (simp_all add: fresh)
  also have "(\<Sum>h' \<in> ?H. mset ((ch(?h := cur)) h')) = (\<Sum>h' \<in> ?H. mset (ch h'))"
    by (rule sum.cong) (use fresh in auto)
  finally have sum: "(\<Sum>h' \<in> insert ?h ?H. mset ((ch(?h := cur)) h'))
          = mset cur + (\<Sum>h' \<in> ?H. mset (ch h'))"
    by simp
  from inv have part: "mset fl + mset cur + (\<Sum>h \<in> ?H. mset (ch h))
      = mset_set {0..<length (descs s)}"
    by (simp add: ring_inv_def)
  have part': "mset fl + mset [] + (\<Sum>h' \<in> insert ?h ?H. mset ((ch(?h := cur)) h'))
      = mset_set {0..<length (descs s)}"
    unfolding sum using part by (simp add: add.assoc)
  have chains: "\<forall>h' \<in> insert ?h ?H. is_chain (descs s) ((ch(?h := cur)) h')
      \<and> hd ((ch(?h := cur)) h') = h'"
    using inv chain by (auto simp: ring_inv_def)
  have fe: "free_ends ?s fl = free_ends s fl"
    by (simp add: free_ends_def)
  show "ring_inv ?s fl (ch(?h := cur)) []"
    unfolding ring_inv_def out p fe
    using inv part' chains by (auto simp: ring_inv_def)
qed

lemma ring_store_inv:
  assumes inv: "ring_inv s fl ch cur"
  shows "ring_store h s = Inr ((emit (Store_avail_ring (unat (masked s (ucast (avail_head s)))) h) s)
                  \<lparr>avail_ring := (avail_ring s)[unat (masked s (ucast (avail_head s))) := h],
                   avail_head := avail_head s + 1\<rparr>)"
proof -
  let ?N = "length (descs s)"
  from ring_size_ok_bounds [of ?N] inv have N: "0 < ?N"
    by (simp add: ring_inv_def)
  from inv have len: "length (avail_ring s) = ?N"
    by (simp add: ring_inv_def)
  have "unat (masked s (ucast (avail_head s))) < ?N"
    using N by (simp add: slot_mod [OF inv])
  then show ?thesis
    by (simp add: ring_store_def Let_def len)
qed

lemma post_chain_inv:
  assumes inv: "ring_inv s fl ch []" and ne: "bc_buffers bc \<noteq> []"
    and le: "length (bc_buffers bc) \<le> length fl"
  shows "\<exists>s' head. post_chain bc s = Inr s' \<and> unat head = hd fl
           \<and> ring_inv s' (drop (length (bc_buffers bc)) fl)
                (ch(hd fl := take (length (bc_buffers bc)) fl)) []
           \<and> set (outstanding s') = insert (hd fl) (set (outstanding s))
           \<and> hd fl \<notin> set (outstanding s)
           \<and> pending_ids s' = pending_ids s
           \<and> ((\<not> poll_mode s \<longrightarrow> batch s = []) \<longrightarrow> pub_order s' = pub_order s @ [head])
           \<and> batch s' = (if poll_mode s then batch s @ [head] else batch s)
           \<and> chain_buffers (descs s') (take (length (bc_buffers bc)) fl) = bc_buffers bc
           \<and> completions s' ! hd fl = Some (bc_completed bc)
           \<and> poll_mode s' = poll_mode s \<and> vconfig s' = vconfig s
           \<and> available_descriptors s' = available_descriptors s
           \<and> (poll_mode s \<longrightarrow> trace s' = trace s)"
proof -
  let ?n = "length (bc_buffers bc)"
  let ?c = "take ?n fl"
  from ne le have flne: "fl \<noteq> []" and cne: "?c \<noteq> []" by auto
  have hdc: "hd ?c = hd fl"
    using ne flne by (cases fl; cases "bc_buffers bc") simp_all
  from post_buffers_inv [OF inv le, of None zero_desc] cne
  obtain ph' s1 where
    pb: "post_buffers (bc_buffers bc) zero_desc None s = Inr (ph', s1)" and fr: "post_frame s s1"
    and inv1: "ring_inv s1 (drop ?n fl) ch ?c" and chain1: "is_chain (descs s1) ?c"
    and hd1: "unat (d_next ph') = hd fl"
    and buf1: "chain_buffers (descs s1) ?c = bc_buffers bc"
    by (auto simp: hdc chain_buffers_def)
  let ?s2 = "s1\<lparr>completions := (completions s1)[hd ?c := Some (bc_completed bc)]\<rparr>"
  note pubs = ring_inv_publish(1) [OF inv1 cne chain1, where c = "bc_completed bc"]
    ring_inv_publish(2) [OF inv1 cne chain1, where c = "bc_completed bc"]
    ring_inv_publish(3,4) [OF inv1 cne chain1]
  from inv1 have len1: "length (completions s1) = length (descs s1)"
    by (simp add: ring_inv_def)
  have same1: "pending_ids s1 = pending_ids s" "outstanding s1 = outstanding s"
  proof -
    show "pending_ids s1 = pending_ids s"
      by (rule pending_ids_cong) (use fr in \<open>simp_all add: post_frame_def\<close>)
    show "outstanding s1 = outstanding s"
      by (rule outstanding_cong) (use fr in \<open>simp add: post_frame_def\<close>)
  qed
  have p2: "pending_ids ?s2 = pending_ids s1"
    by (rule pending_ids_cong) simp_all
  define r where "r = (avail_ring ?s2)[unat (masked ?s2 (ucast (avail_head ?s2))) := d_next ph']"
  have rs: "ring_store (d_next ph') ?s2
           = Inr ((emit (Store_avail_ring (unat (masked ?s2 (ucast (avail_head ?s2)))) (d_next ph')) ?s2)
                  \<lparr>avail_ring := r, avail_head := avail_head ?s2 + 1\<rparr>)"
    unfolding r_def by (rule ring_store_inv [OF pubs(1)])
  have lr: "length r = length (avail_ring ?s2)"
    by (simp add: r_def)
  define s3 where "s3 = (if \<not> poll_mode ?s2
      then (emit (Store_avail_ring (unat (masked ?s2 (ucast (avail_head ?s2)))) (d_next ph')) ?s2)
                  \<lparr>avail_ring := r, avail_head := avail_head ?s2 + 1\<rparr>
      else ?s2\<lparr>batch := batch ?s2 @ [d_next ph']\<rparr>)"
  define s' where "s' = s3\<lparr>avail_added_since_kick := avail_added_since_kick s3 + 1\<rparr>"
  have run: "post_chain bc s = Inr s'"
    using pb pubs(4) rs
    by (simp add: post_chain_def Let_def hd1 hdc len1 s'_def s3_def)
  have inv3: "ring_inv s3 (drop ?n fl) (ch(hd fl := ?c)) []"
    using pubs(1) lr by (simp add: s3_def emit_def hdc ring_inv_avail_ring)
  have o3: "outstanding s3 = outstanding ?s2"
    by (rule outstanding_cong) (simp add: s3_def emit_def)
  have p3: "pending_ids s3 = pending_ids ?s2"
    by (rule pending_ids_cong) (simp_all add: s3_def emit_def)
  have pub3: "(\<not> poll_mode s \<longrightarrow> batch s = []) \<longrightarrow> pub_order s3 = pub_order s @ [d_next ph']"
    using fr by (simp add: s3_def emit_def pub_order_def post_frame_def)
  have b3: "batch s3 = (if poll_mode s then batch s @ [d_next ph'] else batch s)"
    using fr by (simp add: s3_def emit_def post_frame_def)
  have d3: "descs s3 = descs s1" "completions s3 = completions ?s2"
    "poll_mode s3 = poll_mode s" "vconfig s3 = vconfig s"
    "available_descriptors s3 = available_descriptors s"
    "poll_mode s \<longrightarrow> trace s3 = trace s"
    using fr by (simp_all add: s3_def emit_def post_frame_def)
  have "ring_inv s' (drop ?n fl) (ch(hd fl := ?c)) []"
    using inv3 by (simp add: s'_def)
  moreover have "set (outstanding s') = insert (hd fl) (set (outstanding s))"
    using pubs(2) by (simp add: s'_def o3 hdc same1)
  moreover have "hd fl \<notin> set (outstanding s)"
    using pubs(3) by (simp add: hdc same1)
  moreover have "pending_ids s' = pending_ids s"
    by (simp add: s'_def p3 p2 same1)
  moreover have "(\<not> poll_mode s \<longrightarrow> batch s = []) \<longrightarrow> pub_order s' = pub_order s @ [d_next ph']"
    using pub3 by (simp add: s'_def pub_order_def)
  moreover have "batch s' = (if poll_mode s then batch s @ [d_next ph'] else batch s)"
    using b3 by (simp add: s'_def)
  moreover have "chain_buffers (descs s') ?c = bc_buffers bc"
    using buf1 by (simp add: s'_def d3)
  moreover have "completions s' ! hd fl = Some (bc_completed bc)"
    using pubs(4) by (simp add: s'_def d3 hdc len1)
  moreover have "poll_mode s' = poll_mode s" "vconfig s' = vconfig s"
    "available_descriptors s' = available_descriptors s"
    "poll_mode s \<longrightarrow> trace s' = trace s"
    using d3 by (simp_all add: s'_def)
  ultimately show ?thesis
    using run hd1 by (intro exI [of _ s'] exI [of _ "d_next ph'"]) simp
qed

lemma post_chain_short:
  assumes inv: "ring_inv s fl ch []" and lt: "length fl < length (bc_buffers bc)"
  shows "post_chain bc s = Inl Assert_failed"
  using post_buffers_short [OF inv lt, of None zero_desc]
  by (simp add: post_chain_def)

section \<open>The operations keep the invariant\<close>

lemma host_ok_suffix: "host_ok s (h @ h') \<Longrightarrow> host_ok s h'"
  by (auto simp: host_ok_def)

lemma host_ok_mono:
  "host_ok s h \<Longrightarrow> pending_ids s' = pending_ids s \<Longrightarrow>
   set (outstanding s) \<subseteq> set (outstanding s') \<Longrightarrow> host_ok s' h"
  by (auto simp: host_ok_def)

lemma post_chains_inv:
  assumes "ring_inv s fl ch []" and "\<forall>bc \<in> set bcs. bc_buffers bc \<noteq> []"
    and "post_chains bcs s = Inr s1"
  shows "\<exists>fl' ch'. ring_inv s1 fl' ch' [] \<and> poll_mode s1 = poll_mode s
           \<and> (\<not> poll_mode s \<longrightarrow> batch s1 = batch s)"
  using assms
proof (induction bcs arbitrary: s fl ch)
  case Nil
  then show ?case by auto
next
  case (Cons bc bcs)
  from Cons.prems(3) obtain s0 where one: "post_chain bc s = Inr s0"
    and rest: "post_chains bcs s0 = Inr s1"
    by (auto split: sum.splits)
  have le: "length (bc_buffers bc) \<le> length fl"
  proof (rule ccontr)
    assume "\<not> length (bc_buffers bc) \<le> length fl"
    then have "post_chain bc s = Inl Assert_failed"
      using post_chain_short [OF Cons.prems(1)] by simp
    with one show False by simp
  qed
  from Cons.prems(2) have ne: "bc_buffers bc \<noteq> []" by simp
  from post_chain_inv [OF Cons.prems(1) ne le] obtain s0' where
    r: "post_chain bc s = Inr s0'"
      "ring_inv s0' (drop (length (bc_buffers bc)) fl)
                (ch(hd fl := take (length (bc_buffers bc)) fl)) []"
      "poll_mode s0' = poll_mode s"
      "\<exists>head. batch s0' = (if poll_mode s then batch s @ [head] else batch s)"
    by blast
  from r(1) one have "s0' = s0" by simp
  with r have s0: "ring_inv s0 (drop (length (bc_buffers bc)) fl)
                (ch(hd fl := take (length (bc_buffers bc)) fl)) []"
      "poll_mode s0 = poll_mode s" "\<not> poll_mode s \<longrightarrow> batch s0 = batch s"
    by auto
  from Cons.prems(2) have "\<forall>bc \<in> set bcs. bc_buffers bc \<noteq> []" by simp
  from Cons.IH [OF s0(1) this rest] s0(2,3) show ?case
    by auto
qed

lemma kick_notify_cases:
  "kick_notify b s = s \<or> kick_notify b s = s\<lparr>trace := trace s @ [Notify], avail_added_since_kick := 0\<rparr>"
  by (simp add: kick_notify_def emit_def)

lemma kick_cases:
  "kick h s = host_steps h (emit Fence s)
   \<or> kick h s = (host_steps h (emit Fence s))
        \<lparr>trace := trace (host_steps h (emit Fence s)) @ [Notify], avail_added_since_kick := 0\<rparr>"
  using kick_notify_cases [of _ "host_steps h (emit Fence s)"]
  by (auto simp: kick_def Let_def)

lemma kick_inv:
  assumes inv: "ring_inv s fl ch cur" and ok: "host_ok s (hk @ h')"
  shows "ring_inv (kick hk s) fl ch cur \<and> host_ok (kick hk s) h' \<and> quiet s (kick hk s)"
proof -
  let ?f = "emit Fence s"
  let ?t = "host_steps hk ?f"
  have "ring_inv ?f fl ch cur" "host_ok ?f (hk @ h')"
    using inv ok by (simp_all add: emit_def)
  from host_steps_inv [OF this] have t: "ring_inv ?t fl ch cur" "host_ok ?t h'"
    by simp_all
  have q: "quiet s ?t"
    by (simp add: quiet_def emit_def)
  from kick_cases [of hk s] show ?thesis
  proof
    assume "kick hk s = ?t"
    with t q show ?thesis by simp
  next
    assume k: "kick hk s = ?t\<lparr>trace := trace ?t @ [Notify], avail_added_since_kick := 0\<rparr>"
    have "quiet s (?t\<lparr>trace := trace ?t @ [Notify], avail_added_since_kick := 0\<rparr>)"
      using q by (simp add: quiet_def)
    with t show ?thesis
      unfolding k by simp
  qed
qed

lemma ring_stores_inv:
  assumes "ring_inv s fl ch cur"
  shows "\<exists>s'. ring_stores hs s = Inr s' \<and> ring_inv s' fl ch cur
           \<and> pending_ids s' = pending_ids s \<and> outstanding s' = outstanding s
           \<and> batch s' = batch s \<and> poll_mode s' = poll_mode s
           \<and> stored_heads (trace s') = stored_heads (trace s) @ hs"
  using assms
proof (induction hs arbitrary: s)
  case Nil
  then show ?case by simp
next
  case (Cons h hs)
  let ?s1 = "(emit (Store_avail_ring (unat (masked s (ucast (avail_head s)))) h) s)
                  \<lparr>avail_ring := (avail_ring s)[unat (masked s (ucast (avail_head s))) := h],
                   avail_head := avail_head s + 1\<rparr>"
  note st = ring_store_inv [OF Cons.prems, of h]
  have inv1: "ring_inv ?s1 fl ch cur"
    using Cons.prems by (simp add: emit_def ring_inv_avail_ring)
  have same: "pending_ids ?s1 = pending_ids s" "outstanding ?s1 = outstanding s"
    "batch ?s1 = batch s" "poll_mode ?s1 = poll_mode s"
    "stored_heads (trace ?s1) = stored_heads (trace s) @ [h]"
    by (simp_all add: emit_def)
  from Cons.IH [OF inv1] obtain s' where
    "ring_stores hs ?s1 = Inr s'" "ring_inv s' fl ch cur"
    "pending_ids s' = pending_ids ?s1" "outstanding s' = outstanding ?s1"
    "batch s' = batch ?s1" "poll_mode s' = poll_mode ?s1"
    "stored_heads (trace s') = stored_heads (trace ?s1) @ hs"
    by blast
  with st same show ?case
    by simp
qed

lemma flush_batch_inv:
  assumes inv: "ring_inv s fl ch []" and ok: "host_ok s (hk @ h')"
  shows "\<exists>s'. flush_batch hk s = Inr s' \<and> ring_inv s' fl ch [] \<and> host_ok s' h'
           \<and> pub_order s' = pub_order s \<and> poll_mode s' = poll_mode s
           \<and> (batch s = [] \<longrightarrow> batch s' = [])"
proof (cases "batch s = []")
  case True
  with inv host_ok_suffix [OF ok] show ?thesis
    by (simp add: flush_batch_def)
next
  case False
  from ring_stores_inv [OF inv, of "batch s"] obtain s1 where
    s1: "ring_stores (batch s) s = Inr s1" "ring_inv s1 fl ch []"
      "pending_ids s1 = pending_ids s" "outstanding s1 = outstanding s"
      "poll_mode s1 = poll_mode s"
      "stored_heads (trace s1) = stored_heads (trace s) @ batch s"
    by blast
  let ?s2 = "store_avail_idx (s1\<lparr>batch := []\<rparr>)"
  have inv2: "ring_inv ?s2 fl ch []"
    using s1(2) by (simp add: store_avail_idx_def emit_def)
  have "host_ok s1 (hk @ h')"
    using ok s1(3,4) by (simp add: host_ok_def)
  then have ok2: "host_ok ?s2 (hk @ h')"
    by (simp add: store_avail_idx_def emit_def)
  from kick_inv [OF inv2 ok2] have k: "ring_inv (kick hk ?s2) fl ch []"
    "host_ok (kick hk ?s2) h'" and q: "quiet ?s2 (kick hk ?s2)"
    by simp_all
  have s2: "pub_order ?s2 = pub_order s" "poll_mode ?s2 = poll_mode s" "batch ?s2 = []"
    using s1(5,6) by (simp_all add: store_avail_idx_def emit_def pub_order_def)
  have "pub_order (kick hk ?s2) = pub_order s"
    using quiet_pub_order [OF q] s2(1) by simp
  moreover have "poll_mode (kick hk ?s2) = poll_mode s" "batch (kick hk ?s2) = []"
    using q s2(2,3) by (simp_all add: quiet_def)
  ultimately have "pub_order (kick hk ?s2) = pub_order s \<and> poll_mode (kick hk ?s2) = poll_mode s
      \<and> batch (kick hk ?s2) = []"
    by simp
  with k s1(1) False show ?thesis
    by (simp add: flush_batch_def)
qed

lemma vring_ctor_batch: "vring_ctor conf pm = Inr s \<Longrightarrow> batch s = []"
  by (auto simp: vring_ctor_def vring_setup_def split: sum.splits)

lemma store_avail_idx_inv:
  "ring_inv (store_avail_idx s) fl ch cur = ring_inv s fl ch cur"
  "host_ok (store_avail_idx s) h = host_ok s h"
  "quiet s (store_avail_idx s)"
  by (simp_all add: store_avail_idx_def emit_def quiet_def)

lemma ring_ok_quiet:
  "ring_inv s' fl ch [] \<Longrightarrow> quiet s s' \<Longrightarrow> \<not> poll_mode s \<longrightarrow> batch s = [] \<Longrightarrow> ring_ok s'"
  by (auto simp: ring_ok_def quiet_def)

lemma do_complete_ok:
  assumes "ring_ok s" and "host_ok s (schedule_actions hs)" and "do_complete hs s = Inr s'"
  shows "ring_ok s'"
proof -
  from assms(1) obtain fl ch where inv: "ring_inv s fl ch []"
    and b: "\<not> poll_mode s \<longrightarrow> batch s = []"
    by (auto simp: ring_ok_def)
  from assms(2) have "host_ok s (schedule_actions hs @ [])" by simp
  from do_complete_inv [OF inv this] assms(3) obtain fl' where
    "ring_inv s' fl' ch []" "quiet s s'"
    by auto
  then show ?thesis
    using b by (rule ring_ok_quiet)
qed

lemma flush_batch_ok:
  assumes "ring_ok s" and "host_ok s (hk @ h')" and "flush_batch hk s = Inr s'"
  shows "ring_ok s' \<and> host_ok s' h'"
proof -
  from assms(1) obtain fl ch where inv: "ring_inv s fl ch []"
    and b: "\<not> poll_mode s \<longrightarrow> batch s = []"
    by (auto simp: ring_ok_def)
  from flush_batch_inv [OF inv assms(2)] assms(3) have
    "ring_inv s' fl ch []" "host_ok s' h'" "poll_mode s' = poll_mode s"
    "batch s = [] \<longrightarrow> batch s' = []"
    by auto
  with b show ?thesis
    by (auto simp: ring_ok_def)
qed

lemma reachable_ok:
  fixes s :: "'c vring"
  shows "reachable s \<Longrightarrow> ring_ok s"
proof (induction rule: reachable.induct)
  case (ctor conf pm s)
  from vring_ctor_inv [OF ctor(1), of pm "\<lambda>_. []"] obtain s0 :: "'c vring" where
    "vring_ctor conf pm = Inr s0" "ring_inv s0 [0..<unat (c_size conf)] (\<lambda>_. []) []"
    by blast
  with ctor(2) have "ring_inv s [0..<unat (c_size conf)] (\<lambda>_. []) []"
    by simp
  with vring_ctor_batch [OF ctor(2)] show ?case
    by (auto simp: ring_ok_def)
next
  case (host s h)
  from host(3) obtain fl ch where inv: "ring_inv s fl ch []"
    and b: "\<not> poll_mode s \<longrightarrow> batch s = []"
    by (auto simp: ring_ok_def)
  from host(2) have "host_ok s (h @ [])" by simp
  from host_steps_inv [OF inv this] have "ring_inv (host_steps h s) fl ch []"
    by simp
  then show ?case
    using b by (auto simp: ring_ok_def)
next
  case (post s bcs s1 hk hs s')
  from post(6) obtain fl ch where inv: "ring_inv s fl ch []"
    and b: "\<not> poll_mode s \<longrightarrow> batch s = []"
    by (auto simp: ring_ok_def)
  from post_chains_inv [OF inv post(2,3)] obtain fl1 ch1 where
    s1: "ring_inv s1 fl1 ch1 []" "poll_mode s1 = poll_mode s"
      "\<not> poll_mode s \<longrightarrow> batch s1 = batch s"
    by blast
  with b have ok1: "ring_ok s1"
    by (auto simp: ring_ok_def)
  show ?case
  proof (cases "poll_mode s1")
    case False
    let ?a = "store_avail_idx s1"
    from post(5) False have run: "do_complete hs (kick hk ?a) = Inr s'"
      by (simp add: vring_post_def post(3))
    have "ring_inv ?a fl1 ch1 []" "host_ok ?a (hk @ schedule_actions hs)"
      using s1(1) post(4) by (simp_all add: store_avail_idx_inv)
    from kick_inv [OF this] have k: "ring_inv (kick hk ?a) fl1 ch1 []"
      "host_ok (kick hk ?a) (schedule_actions hs)" "quiet ?a (kick hk ?a)"
      by simp_all
    have "quiet s1 (kick hk ?a)"
      by (rule quiet_trans [OF store_avail_idx_inv(3) k(3)])
    with k(1) have "ring_ok (kick hk ?a)"
      using s1 b by (auto simp: ring_ok_def quiet_def)
    from do_complete_ok [OF this k(2) run] show ?thesis .
  next
    case True
    show ?thesis
    proof (cases "16 \<le> length (batch s1)")
      case long: True
      with post(5) True have "flush_batch hk s1 = Inr s'"
        by (simp add: vring_post_def post(3))
      from flush_batch_ok [OF ok1 post(4) this] show ?thesis
        by simp
    next
      case False
      with post(5) True have "s' = s1"
        by (simp add: vring_post_def post(3))
      with ok1 show ?thesis by simp
    qed
  qed
next
  case (do_complete s hs s')
  from do_complete_ok [OF do_complete(4,2,3)] show ?case .
next
  case (complete s hs s')
  from complete(3) obtain s1 where d: "do_complete hs s = Inr s1" and e: "s' = emit Wait s1"
    by (auto simp: vring_complete_def split: sum.splits)
  from do_complete_ok [OF complete(4,2) d] show ?case
    by (simp add: e emit_def ring_ok_def)
next
  case (flush_batch s hk s')
  from flush_batch(2) have "host_ok s (hk @ [])" by simp
  from flush_batch_ok [OF flush_batch(4) this flush_batch(3)] show ?case
    by simp
next
  case (poll s hk hs s')
  from poll(3) obtain s1 where f: "flush_batch hk s = Inr s1" and d: "do_complete hs s1 = Inr s'"
    by (auto simp: poll_once_def split: sum.splits)
  from flush_batch_ok [OF poll(4,2) f] have "ring_ok s1" "host_ok s1 (schedule_actions hs)"
    by simp_all
  from do_complete_ok [OF this d] show ?case .
next
  case (permits s n)
  have "ring_inv (s\<lparr>available_descriptors := n\<rparr>) fl ch [] = ring_inv s fl ch []" for fl ch
    by (rule ring_inv_cong) simp_all
  with permits(2) show ?case
    by (simp add: ring_ok_def)
qed

lemma free_list_ctor:
  assumes "ring_size_ok (unat (c_size conf))"
  shows "\<exists>s :: 'c vring. vring_ctor conf pm = Inr s
           \<and> free_list s = [0..<unat (c_size conf)]
           \<and> free_head s = 0 \<and> free_last s = int (unat (c_size conf)) - 1
           \<and> available_descriptors s = unat (c_size conf)
           \<and> completions s = replicate (unat (c_size conf)) None"
proof -
  from vring_ctor_inv [OF assms, of pm "\<lambda>_. []"] obtain s :: "'c vring" where
    s: "vring_ctor conf pm = Inr s" "ring_inv s [0..<unat (c_size conf)] (\<lambda>_. []) []"
      "free_head s = 0" "free_last s = int (unat (c_size conf)) - 1"
      "available_descriptors s = unat (c_size conf)"
    by blast
  have "completions s = replicate (unat (c_size conf)) None"
    using s(1) by (auto simp: vring_ctor_def vring_setup_def split: sum.splits)
  with s ring_inv_free_list [OF s(2)] have "vring_ctor conf pm = Inr s
           \<and> free_list s = [0..<unat (c_size conf)]
           \<and> free_head s = 0 \<and> free_last s = int (unat (c_size conf)) - 1
           \<and> available_descriptors s = unat (c_size conf)
           \<and> completions s = replicate (unat (c_size conf)) None"
    by simp
  then show ?thesis
    by (rule exI [of _ s])
qed

text \<open>
  C3: in every reachable state of a ring, the number of descriptors in the free list plus
  the number of descriptors in the chains with an outstanding completion is the ring
  size; and construction, for a ring size that is a power of two up to 32768, gives the
  free list \<open>0, 1, \<dots>, N - 1\<close>, linked in this order from \<^verbatim>\<open>_free_head = 0\<close> to
  \<^verbatim>\<open>_free_last = N - 1\<close>, no outstanding completion, and \<open>N\<close> permits in the semaphore.
\<close>

theorem C3_free_plus_outstanding:
  fixes s :: "'c vring"
  shows "(reachable s \<longrightarrow> free_count s + outstanding_count s = unat (c_size (vconfig s)))
   \<and> (ring_size_ok (unat (c_size conf)) \<longrightarrow>
        (\<exists>s0 :: 'c vring. vring_ctor conf pm = Inr s0
             \<and> free_list s0 = [0..<unat (c_size conf)]
             \<and> free_head s0 = 0 \<and> free_last s0 = int (unat (c_size conf)) - 1
             \<and> available_descriptors s0 = unat (c_size conf)
             \<and> completions s0 = replicate (unat (c_size conf)) None))"
proof (intro conjI impI)
  assume "reachable s"
  then have "ring_ok s" by (rule reachable_ok)
  then obtain fl ch where "ring_inv s fl ch []"
    by (auto simp: ring_ok_def)
  then show "free_count s + outstanding_count s = unat (c_size (vconfig s))"
    by (rule ring_inv_count)
next
  assume "ring_size_ok (unat (c_size conf))"
  then show "\<exists>s0 :: 'c vring. vring_ctor conf pm = Inr s0
             \<and> free_list s0 = [0..<unat (c_size conf)]
             \<and> free_head s0 = 0 \<and> free_last s0 = int (unat (c_size conf)) - 1
             \<and> available_descriptors s0 = unat (c_size conf)
             \<and> completions s0 = replicate (unat (c_size conf)) None"
    by (rule free_list_ctor)
qed

theorem C3_free_plus_outstanding_witness:
  "reachable (ring4_posted False) \<and> reachable (ring4_completed False)
   \<and> ring_size_ok (unat (c_size (conf4 False)))
   \<and> free_count (ring4_posted False) = 2 \<and> outstanding_count (ring4_posted False) = 2
   \<and> free_count (ring4_completed False) = 4 \<and> outstanding_count (ring4_completed False) = 0
   \<and> free_list (ring4 False False) = [0, 1, 2, 3]"
proof -
  let ?bcs = "[\<lparr>bc_buffers = [buf100, buf100], bc_completed = ()\<rparr>]"
  let ?hs = "[([Push \<lparr>ue_id = 0, ue_len = 200\<rparr>], [])]"
  have "(4 :: nat) = 2 ^ 2" by simp
  then have sz: "ring_size_ok (unat (c_size (conf4 False)))"
    unfolding ring_size_ok_def conf4_def by (intro exI [of _ 2]) simp
  have "case vring_ctor (conf4 False) False :: error + unit vring of
          Inl e \<Rightarrow> False | Inr s \<Rightarrow> True"
    by code_simp
  then have c: "vring_ctor (conf4 False) False = Inr (ring4 False False)"
    by (auto simp: ring4_def split: sum.splits)
  have r0: "reachable (ring4 False False)"
    by (rule reachable.ctor [OF sz c])
  have "case post_chains ?bcs (ring4 False False) of
          Inl e \<Rightarrow> False | Inr s1 \<Rightarrow> pending_ids s1 = []"
    by code_simp
  then obtain s1 where s1: "post_chains ?bcs (ring4 False False) = Inr s1"
    and p1: "pending_ids s1 = []"
    by (auto split: sum.splits)
  have h1: "host_ok s1 ([] @ schedule_actions [])"
    by (simp add: host_ok_def schedule_actions_def p1)
  have "case vring_post [] [] ?bcs (ring4 False False) of
          Inl e \<Rightarrow> False | Inr s \<Rightarrow> True"
    by code_simp
  then have v: "vring_post [] [] ?bcs (ring4 False False) = Inr (ring4_posted False)"
    by (auto simp: ring4_posted_def split: sum.splits)
  have r1: "reachable (ring4_posted False)"
    by (rule reachable.post [OF r0 _ s1 h1 v]) (simp add: buf100_def)
  have h2: "host_ok (ring4_posted False) (schedule_actions ?hs)"
    by code_simp
  have "case do_complete ?hs (ring4_posted False) of Inl e \<Rightarrow> False | Inr s \<Rightarrow> True"
    by code_simp
  then have d: "do_complete ?hs (ring4_posted False) = Inr (ring4_completed False)"
    by (auto simp: ring4_completed_def split: sum.splits)
  have r2: "reachable (ring4_completed False)"
    by (rule reachable.do_complete [OF r1 h2 d])
  have f: "free_count (ring4_posted False) = 2" "free_count (ring4_completed False) = 4"
    by code_simp+
  have n: "unat (c_size (vconfig (ring4_posted False))) = 4"
    "unat (c_size (vconfig (ring4_completed False))) = 4"
    by code_simp+
  have e: "[0..<unat (c_size (conf4 False))] = [0, 1, 2, 3]"
    by code_simp
  note t = C3_free_plus_outstanding [of "ring4_posted False" "conf4 False" False]
  note t2 = C3_free_plus_outstanding [of "ring4_completed False" "conf4 False" False]
  from t r1 f n have o: "outstanding_count (ring4_posted False) = 2"
    by simp
  from t2 r2 f n have o2: "outstanding_count (ring4_completed False) = 0"
    by simp
  from t sz obtain s0 :: "unit vring" where
    "vring_ctor (conf4 False) False = Inr s0" "free_list s0 = [0..<unat (c_size (conf4 False))]"
    by blast
  with c e have "free_list (ring4 False False) = [0, 1, 2, 3]"
    by simp
  with r1 r2 sz f o o2 show ?thesis
    by simp
qed

section \<open>Facts about sending\<close>







end
